theory Spec2Isabelle
  imports Complex_Main "HOL-Library.Word"
begin

unbundle bit_operations_syntax

section \<open>Shared constants and helpers (constants.hpp)\<close>

text \<open>
  The two hash-table engines of the repository, \<open>FlatHashMap\<close> (flat_hash_map.hpp) and
  \<open>NodeHashMap\<close> (node_hash_map.hpp), are embedded function by function.

  Conventions of the embedding.
  \<^item> \<open>size_t\<close> counters (\<open>size_\<close>, \<open>capacity_\<close>, \<open>tombstone_count_\<close>, slot indices, hash
    values) are natural numbers. The decrements \<open>--size_\<close>, \<open>--tombstone_count_\<close> and
    \<open>capacity_ - 1\<close> wrap at zero as they do in C++ (\<open>size_t_dec\<close>). Increments and the
    doubling \<open>capacity_ * 2\<close> are not wrapped: they would need a table of \<open>2 ^ 63\<close> slots,
    which \<open>std::vector\<close> cannot allocate. \<open>next_power_of_2\<close>, whose wrap-around is
    reachable, is embedded on 64-bit words.
  \<^item> A \<open>double\<close> is the rational number it stands for. In the sized constructor,
    \<open>static_cast<size_t>(expected_size / MAX_LOAD_FACTOR)\<close>, both the conversion of
    \<open>expected_size\<close> and the division are rounded to binary64 (\<open>binary64\<close> below). In the
    rehash checks, \<open>static_cast<double>(a) / capacity_ > c\<close>, the quotient is exact:
    rounding it changes the comparison only in a table of more than \<open>2 ^ 50\<close> slots.
    The quotient by zero is
    written out as IEEE 754 gives it (infinity, or NaN for \<open>0 / 0\<close>, which compares
    false).
  \<^item> Memory is unbounded: \<open>table_.resize\<close> and \<open>make_unique\<close> always succeed, so
    \<open>std::length_error\<close> and \<open>std::bad_alloc\<close> are not outcomes of the embedding, and its
    maps include some that no machine can hold.
  \<^item> \<open>table_[pos]\<close> with \<open>pos\<close> outside the vector is undefined behaviour in C++; the
    embedding returns the error \<open>Out_of_range\<close> there. The exception
    \<open>std::runtime_error("Hash table is full")\<close> is the error \<open>Table_full\<close>.
  \<^item> The hash functor \<open>hash_fn_\<close> is a parameter \<open>hf\<close> of every operation that hashes a
    key; key equality \<open>==\<close> is equality in HOL. \<open>Value{}\<close> is a parameter \<open>dv\<close>.
\<close>

datatype error = Table_full | Out_of_range

definition INITIAL_CAPACITY :: nat where
  "INITIAL_CAPACITY = 16"

definition MAX_LOAD_FACTOR :: rat where
  "MAX_LOAD_FACTOR = 75 / 100"

definition MAX_TOMBSTONE_RATIO :: rat where
  "MAX_TOMBSTONE_RATIO = 25 / 100"

definition EMPTY_HASH :: nat where
  "EMPTY_HASH = 0"

definition TOMBSTONE_HASH :: nat where
  "TOMBSTONE_HASH = 1"

definition next_power_of_2 :: "64 word \<Rightarrow> 64 word" where
  "next_power_of_2 n0 =
     (if n0 = 0 then 1
      else let n = n0 - 1;
               n = n OR drop_bit 1 n;
               n = n OR drop_bit 2 n;
               n = n OR drop_bit 4 n;
               n = n OR drop_bit 8 n;
               n = n OR drop_bit 16 n;
               n = n OR drop_bit 32 n
           in n + 1)"

text \<open>\<open>n - 1\<close> and \<open>--n\<close> on a \<open>size_t\<close>.\<close>

definition size_t_dec :: "nat \<Rightarrow> nat" where
  "size_t_dec n = (if n = 0 then 2 ^ 64 - 1 else n - 1)"

text \<open>\<open>static_cast<double>(a) / b > c\<close>.\<close>

definition quotient_exceeds :: "nat \<Rightarrow> nat \<Rightarrow> rat \<Rightarrow> bool" where
  "quotient_exceeds a b c =
     (if b = 0 then 0 < a else c < rat_of_nat a / rat_of_nat b)"

text \<open>
  Binary64 rounding, for the sized constructor. \<open>bit_length n\<close> is the number of binary
  digits of \<open>n\<close>. \<open>round_half_even\<close> is the integer nearest to a rational, the even one of
  the two on a tie. \<open>binary64 x\<close> is the \<open>double\<close> nearest to \<open>x\<close> in the default rounding
  mode, for \<open>x = 0\<close> or \<open>1 \<le> x < 2 ^ 1024\<close>: a number with \<open>b\<close> digits before the point
  keeps its leading 53 bits, so it is rounded to a multiple of \<open>2 ^ (b - 53)\<close>.
\<close>

fun bit_length :: "nat \<Rightarrow> nat" where
  "bit_length n = (if n = 0 then 0 else Suc (bit_length (n div 2)))"

definition round_half_even :: "rat \<Rightarrow> int" where
  "round_half_even q =
     (let f = \<lfloor>q\<rfloor>; r = q - of_int f
      in if r < 1 / 2 then f else if 1 / 2 < r then f + 1 else if even f then f else f + 1)"

definition binary64 :: "rat \<Rightarrow> rat" where
  "binary64 x =
     (let b = bit_length (nat \<lfloor>x\<rfloor>)
      in if b \<le> 53 then of_int (round_half_even (x * 2 ^ (53 - b))) / 2 ^ (53 - b)
         else of_int (round_half_even (x / 2 ^ (b - 53))) * 2 ^ (b - 53))"

text \<open>
  \<open>static_cast<size_t>(expected_size / MAX_LOAD_FACTOR)\<close>: \<open>expected_size\<close> is converted
  to \<open>double\<close>, the division of the two doubles is rounded to a \<open>double\<close>, and the cast
  truncates it towards zero; \<open>None\<close> when the quotient does not fit a \<open>size_t\<close> (the cast
  is then undefined).
\<close>

definition scaled_expected_size :: "nat \<Rightarrow> nat option" where
  "scaled_expected_size expected_size =
     (let q = binary64 (binary64 (rat_of_nat expected_size) / MAX_LOAD_FACTOR)
      in if q < 2 ^ 64 then Some (nat \<lfloor>q\<rfloor>) else None)"

text \<open>
  \<open>make_hash\<close> and \<open>probe\<close> are written identically in both classes; \<open>probe\<close> reads the
  member \<open>capacity_\<close>, passed here as its first argument.
\<close>

definition make_hash :: "nat \<Rightarrow> nat" where
  "make_hash h = (if h = EMPTY_HASH \<or> h = TOMBSTONE_HASH then 2 else h)"

definition probe :: "nat \<Rightarrow> nat \<Rightarrow> nat \<Rightarrow> nat" where
  "probe capacity index i = (index + i) AND size_t_dec capacity"

text \<open>The calls of the public interface that a client can issue on either backend.\<close>

datatype ('k, 'v) call =
  Insert 'k 'v | Erase 'k | Clear | Subscript 'k | Find 'k | Contains 'k

text \<open>The two constructors: \<open>Map()\<close> and \<open>Map(expected_size)\<close>.\<close>

datatype ctor = Default_ctor | Sized_ctor nat

section \<open>The inline backend: FlatHashMap\<close>

text \<open>
  A slot holds the hash marker and the raw storage of key and value; \<open>None\<close> is storage
  with no live object in it.
\<close>

record ('k, 'v) flat_slot =
  fs_hash :: nat
  fs_key :: "'k option"
  fs_value :: "'v option"

record ('k, 'v) flat_map =
  f_table :: "('k, 'v) flat_slot list"
  f_size :: nat
  f_capacity :: nat
  f_tombstone_count :: nat

definition flat_Slot :: "('k, 'v) flat_slot" where
  "flat_Slot = \<lparr>fs_hash = 0, fs_key = None, fs_value = None\<rparr>"

definition flat_is_empty :: "('k, 'v) flat_slot \<Rightarrow> bool" where
  "flat_is_empty slot = (fs_hash slot = EMPTY_HASH)"

definition flat_is_tombstone :: "('k, 'v) flat_slot \<Rightarrow> bool" where
  "flat_is_tombstone slot = (fs_hash slot = TOMBSTONE_HASH)"

definition flat_destroy_slot :: "('k, 'v) flat_slot \<Rightarrow> ('k, 'v) flat_slot" where
  "flat_destroy_slot slot =
     (if \<not> flat_is_empty slot \<and> \<not> flat_is_tombstone slot
      then slot\<lparr>fs_key := None, fs_value := None\<rparr> else slot)"

text \<open>
  \<open>insert_internal\<close> is only called by \<open>rehash\<close>, with the key and value moved out of an
  old slot; the embedding passes the old slot's storage as it is.
\<close>

function flat_insert_internal_loop ::
  "('k, 'v) flat_map \<Rightarrow> nat \<Rightarrow> 'k option \<Rightarrow> 'v option \<Rightarrow> nat \<Rightarrow> nat \<Rightarrow> error + ('k, 'v) flat_map"
where
  "flat_insert_internal_loop m hash key val index i =
     (if i < f_capacity m then
        let pos = probe (f_capacity m) index i in
        if pos < length (f_table m) then
          if flat_is_empty (f_table m ! pos) \<or> flat_is_tombstone (f_table m ! pos) then
            Inr (m\<lparr>f_tombstone_count :=
                      (if flat_is_tombstone (f_table m ! pos)
                       then size_t_dec (f_tombstone_count m) else f_tombstone_count m),
                    f_table := (f_table m)
                      [pos := \<lparr>fs_hash = hash, fs_key = key, fs_value = val\<rparr>]\<rparr>)
          else flat_insert_internal_loop m hash key val index (i + 1)
        else Inl Out_of_range
      else Inl Table_full)"
  by pat_completeness auto
termination
  by (relation "measure (\<lambda>(m, hash, key, val, index, i). f_capacity m - i)") auto

definition flat_insert_internal ::
  "('k, 'v) flat_map \<Rightarrow> nat \<Rightarrow> 'k option \<Rightarrow> 'v option \<Rightarrow> error + ('k, 'v) flat_map"
where
  "flat_insert_internal m hash key val =
     flat_insert_internal_loop m hash key val (hash AND size_t_dec (f_capacity m)) 0"

text \<open>The loop of \<open>rehash\<close> over the old table, and \<open>rehash\<close> itself.\<close>

fun flat_rehash_loop ::
  "('k, 'v) flat_slot list \<Rightarrow> ('k, 'v) flat_map \<Rightarrow> error + ('k, 'v) flat_map"
where
  "flat_rehash_loop [] m = Inr m"
| "flat_rehash_loop (slot # old_table) m =
     (if \<not> flat_is_empty slot \<and> \<not> flat_is_tombstone slot then
        (case flat_insert_internal m (fs_hash slot) (fs_key slot) (fs_value slot) of
           Inl e \<Rightarrow> Inl e
         | Inr m' \<Rightarrow> flat_rehash_loop old_table m')
      else flat_rehash_loop old_table m)"

definition flat_rehash :: "('k, 'v) flat_map \<Rightarrow> nat \<Rightarrow> error + ('k, 'v) flat_map" where
  "flat_rehash m new_capacity =
     flat_rehash_loop (f_table m)
       (m\<lparr>f_table := replicate new_capacity flat_Slot,
          f_capacity := new_capacity,
          f_tombstone_count := 0\<rparr>)"

function flat_find_slot_loop ::
  "('k, 'v) flat_map \<Rightarrow> 'k \<Rightarrow> nat \<Rightarrow> nat \<Rightarrow> nat \<Rightarrow> error + nat"
where
  "flat_find_slot_loop m key hash index i =
     (if i < f_capacity m then
        let pos = probe (f_capacity m) index i in
        if pos < length (f_table m) then
          if flat_is_empty (f_table m ! pos) then Inr (f_capacity m)
          else if flat_is_tombstone (f_table m ! pos) then
            flat_find_slot_loop m key hash index (i + 1)
          else if fs_hash (f_table m ! pos) = hash \<and> fs_key (f_table m ! pos) = Some key
            then Inr pos
          else flat_find_slot_loop m key hash index (i + 1)
        else Inl Out_of_range
      else Inr (f_capacity m))"
  by pat_completeness auto
termination
  by (relation "measure (\<lambda>(m, key, hash, index, i). f_capacity m - i)") auto

definition flat_find_slot :: "('k, 'v) flat_map \<Rightarrow> 'k \<Rightarrow> nat \<Rightarrow> error + nat" where
  "flat_find_slot m key hash =
     flat_find_slot_loop m key hash (hash AND size_t_dec (f_capacity m)) 0"

text \<open>The constructors. The sized one is undefined (\<open>None\<close>) where its cast is.\<close>

definition FlatHashMap :: "('k, 'v) flat_map" where
  "FlatHashMap =
     \<lparr>f_table = replicate INITIAL_CAPACITY flat_Slot, f_size = 0,
      f_capacity = INITIAL_CAPACITY, f_tombstone_count = 0\<rparr>"

definition FlatHashMap_sized :: "nat \<Rightarrow> ('k, 'v) flat_map option" where
  "FlatHashMap_sized expected_size =
     (case scaled_expected_size expected_size of
        None \<Rightarrow> None
      | Some n \<Rightarrow>
          let capacity = unat (next_power_of_2 (word_of_nat n)) in
          Some \<lparr>f_table = replicate capacity flat_Slot, f_size = 0,
                f_capacity = capacity, f_tombstone_count = 0\<rparr>)"

fun flat_construct :: "ctor \<Rightarrow> ('k, 'v) flat_map option" where
  "flat_construct Default_ctor = Some FlatHashMap"
| "flat_construct (Sized_ctor expected_size) = FlatHashMap_sized expected_size"

text \<open>
  Move construction and move assignment: the new owner, and the state the source is
  left in. Assignment to itself changes nothing and is not a call with two maps.
\<close>

definition flat_move :: "('k, 'v) flat_map \<Rightarrow> ('k, 'v) flat_map \<times> ('k, 'v) flat_map" where
  "flat_move other =
     (\<lparr>f_table = f_table other, f_size = f_size other,
       f_capacity = f_capacity other, f_tombstone_count = f_tombstone_count other\<rparr>,
      \<lparr>f_table = [], f_size = 0, f_capacity = 0, f_tombstone_count = 0\<rparr>)"

definition flat_move_assign ::
  "('k, 'v) flat_map \<Rightarrow> ('k, 'v) flat_map \<Rightarrow> ('k, 'v) flat_map \<times> ('k, 'v) flat_map"
where
  "flat_move_assign this other =
     (\<lparr>f_table = f_table other, f_size = f_size other,
       f_capacity = f_capacity other, f_tombstone_count = f_tombstone_count other\<rparr>,
      \<lparr>f_table = [], f_size = 0, f_capacity = 0, f_tombstone_count = 0\<rparr>)"

definition flat_size :: "('k, 'v) flat_map \<Rightarrow> nat" where
  "flat_size m = f_size m"

definition flat_empty :: "('k, 'v) flat_map \<Rightarrow> bool" where
  "flat_empty m = (f_size m = 0)"

definition flat_capacity :: "('k, 'v) flat_map \<Rightarrow> nat" where
  "flat_capacity m = f_capacity m"

definition flat_clear :: "('k, 'v) flat_map \<Rightarrow> ('k, 'v) flat_map" where
  "flat_clear m =
     m\<lparr>f_table := map (\<lambda>slot. (flat_destroy_slot slot)\<lparr>fs_hash := EMPTY_HASH\<rparr>) (f_table m),
       f_size := 0, f_tombstone_count := 0\<rparr>"

text \<open>
  The probe loop of \<open>insert\<close>. It returns the new map, the returned \<open>Value *\<close> as the
  index of the slot whose value storage it points into, and the \<open>inserted\<close> flag.
\<close>

function flat_insert_loop ::
  "('k, 'v) flat_map \<Rightarrow> 'k \<Rightarrow> 'v \<Rightarrow> nat \<Rightarrow> nat \<Rightarrow> nat \<Rightarrow> nat
     \<Rightarrow> error + (('k, 'v) flat_map \<times> nat \<times> bool)"
where
  "flat_insert_loop m key val hash index first_tombstone i =
     (if i < f_capacity m then
        let pos = probe (f_capacity m) index i in
        if pos < length (f_table m) then
          if flat_is_empty (f_table m ! pos) then
            let insert_pos = (if first_tombstone \<noteq> f_capacity m then first_tombstone else pos) in
            Inr (m\<lparr>f_tombstone_count :=
                      (if first_tombstone \<noteq> f_capacity m
                       then size_t_dec (f_tombstone_count m) else f_tombstone_count m),
                    f_table := (f_table m)
                      [insert_pos := \<lparr>fs_hash = hash, fs_key = Some key, fs_value = Some val\<rparr>],
                    f_size := f_size m + 1\<rparr>,
                 insert_pos, True)
          else if flat_is_tombstone (f_table m ! pos) \<and> first_tombstone = f_capacity m then
            flat_insert_loop m key val hash index pos (i + 1)
          else if \<not> flat_is_tombstone (f_table m ! pos) \<and> fs_hash (f_table m ! pos) = hash
                  \<and> fs_key (f_table m ! pos) = Some key then
            Inr (m\<lparr>f_table := (f_table m)
                      [pos := (f_table m ! pos)\<lparr>fs_value := Some val\<rparr>]\<rparr>,
                 pos, False)
          else flat_insert_loop m key val hash index first_tombstone (i + 1)
        else Inl Out_of_range
      else Inl Table_full)"
  by pat_completeness auto
termination
  by (relation "measure (\<lambda>(m, key, val, hash, index, first_tombstone, i). f_capacity m - i)")
    auto

definition flat_insert ::
  "('k \<Rightarrow> nat) \<Rightarrow> ('k, 'v) flat_map \<Rightarrow> 'k \<Rightarrow> 'v \<Rightarrow> error + (('k, 'v) flat_map \<times> nat \<times> bool)"
where
  "flat_insert hf m key val =
     (case (if quotient_exceeds (f_size m + 1) (f_capacity m) MAX_LOAD_FACTOR
               \<or> quotient_exceeds (f_tombstone_count m) (f_capacity m) MAX_TOMBSTONE_RATIO
            then flat_rehash m (f_capacity m * 2) else Inr m) of
        Inl e \<Rightarrow> Inl e
      | Inr m1 \<Rightarrow>
          let hash = make_hash (hf key);
              index = hash AND size_t_dec (f_capacity m1)
          in flat_insert_loop m1 key val hash index (f_capacity m1) 0)"

text \<open>\<open>find\<close> returns the \<open>Value *\<close> as a slot index, \<open>None\<close> for \<open>nullptr\<close>.\<close>

definition flat_find :: "('k \<Rightarrow> nat) \<Rightarrow> ('k, 'v) flat_map \<Rightarrow> 'k \<Rightarrow> error + nat option" where
  "flat_find hf m key =
     (case flat_find_slot m key (make_hash (hf key)) of
        Inl e \<Rightarrow> Inl e
      | Inr pos \<Rightarrow> if pos = f_capacity m then Inr None else Inr (Some pos))"

definition flat_contains :: "('k \<Rightarrow> nat) \<Rightarrow> ('k, 'v) flat_map \<Rightarrow> 'k \<Rightarrow> error + bool" where
  "flat_contains hf m key =
     (case flat_find hf m key of Inl e \<Rightarrow> Inl e | Inr p \<Rightarrow> Inr (p \<noteq> None))"

text \<open>Reading through a returned \<open>Value *\<close>.\<close>

definition flat_deref :: "('k, 'v) flat_map \<Rightarrow> nat \<Rightarrow> 'v option" where
  "flat_deref m p = (if p < length (f_table m) then fs_value (f_table m ! p) else None)"

text \<open>\<open>operator[]\<close>: the new map and the slot the returned reference points into.\<close>

definition flat_subscript ::
  "('k \<Rightarrow> nat) \<Rightarrow> 'v \<Rightarrow> ('k, 'v) flat_map \<Rightarrow> 'k \<Rightarrow> error + (('k, 'v) flat_map \<times> nat)"
where
  "flat_subscript hf dv m key =
     (case flat_find_slot m key (make_hash (hf key)) of
        Inl e \<Rightarrow> Inl e
      | Inr pos \<Rightarrow>
          if pos \<noteq> f_capacity m then Inr (m, pos)
          else (case flat_insert hf m key dv of
                  Inl e \<Rightarrow> Inl e
                | Inr (m', p, inserted) \<Rightarrow> Inr (m', p)))"

definition flat_erase ::
  "('k \<Rightarrow> nat) \<Rightarrow> ('k, 'v) flat_map \<Rightarrow> 'k \<Rightarrow> error + (('k, 'v) flat_map \<times> bool)"
where
  "flat_erase hf m key =
     (case flat_find_slot m key (make_hash (hf key)) of
        Inl e \<Rightarrow> Inl e
      | Inr pos \<Rightarrow>
          if pos = f_capacity m then Inr (m, False)
          else
            let m1 = m\<lparr>f_table := (f_table m)
                          [pos := (flat_destroy_slot (f_table m ! pos))\<lparr>fs_hash := TOMBSTONE_HASH\<rparr>],
                       f_tombstone_count := f_tombstone_count m + 1,
                       f_size := size_t_dec (f_size m)\<rparr>
            in if quotient_exceeds (f_tombstone_count m1) (f_capacity m1) MAX_TOMBSTONE_RATIO
                  \<and> 0 < f_size m1
               then (case flat_rehash m1 (f_capacity m1) of
                       Inl e \<Rightarrow> Inl e
                     | Inr m2 \<Rightarrow> Inr (m2, True))
               else Inr (m1, True))"

text \<open>One call of the public interface, and a sequence of calls; an error ends the run.\<close>

fun flat_call ::
  "('k \<Rightarrow> nat) \<Rightarrow> 'v \<Rightarrow> ('k, 'v) flat_map \<Rightarrow> ('k, 'v) call \<Rightarrow> error + ('k, 'v) flat_map"
where
  "flat_call hf dv m (Insert key val) = map_sum id fst (flat_insert hf m key val)"
| "flat_call hf dv m (Erase key) = map_sum id fst (flat_erase hf m key)"
| "flat_call hf dv m Clear = Inr (flat_clear m)"
| "flat_call hf dv m (Subscript key) = map_sum id fst (flat_subscript hf dv m key)"
| "flat_call hf dv m (Find key) = map_sum id (\<lambda>_. m) (flat_find hf m key)"
| "flat_call hf dv m (Contains key) = map_sum id (\<lambda>_. m) (flat_contains hf m key)"

fun flat_run ::
  "('k \<Rightarrow> nat) \<Rightarrow> 'v \<Rightarrow> ('k, 'v) flat_map \<Rightarrow> ('k, 'v) call list \<Rightarrow> error + ('k, 'v) flat_map"
where
  "flat_run hf dv m [] = Inr m"
| "flat_run hf dv m (c # cs) =
     (case flat_call hf dv m c of Inl e \<Rightarrow> Inl e | Inr m' \<Rightarrow> flat_run hf dv m' cs)"

section \<open>The indirect backend: NodeHashMap\<close>

text \<open>
  A slot holds the hash and an \<open>Entry *\<close>: \<open>nullptr\<close>, the tombstone sentinel
  \<open>reinterpret_cast<Entry *>(1)\<close>, or the address of an entry owned by \<open>entries_\<close>.
  The backing store \<open>entries_\<close> is a list of the entries' \<open>data\<close> pairs, and the address
  of an entry is its index in that list: \<open>push_back\<close> appends, nothing is removed before
  \<open>clear()\<close>. A returned \<open>Value *\<close> points into an entry and is that entry's index.
\<close>

datatype entry_ptr = Null_ptr | Tombstone_ptr | Entry_ptr nat

record node_slot =
  ns_hash :: nat
  ns_entry :: entry_ptr

record ('k, 'v) node_map =
  n_table :: "node_slot list"
  n_entries :: "('k \<times> 'v) list"
  n_size :: nat
  n_capacity :: nat
  n_tombstone_count :: nat

definition node_Slot :: node_slot where
  "node_Slot = \<lparr>ns_hash = 0, ns_entry = Null_ptr\<rparr>"

definition tombstone_ptr :: entry_ptr where
  "tombstone_ptr = Tombstone_ptr"

definition node_is_tombstone :: "node_slot \<Rightarrow> bool" where
  "node_is_tombstone slot = (ns_entry slot = tombstone_ptr)"

definition node_is_empty :: "node_slot \<Rightarrow> bool" where
  "node_is_empty slot = (ns_entry slot = Null_ptr)"

text \<open>\<open>entry->data.first == key\<close> for the entry pointer of a slot.\<close>

definition node_key_equals :: "('k \<times> 'v) list \<Rightarrow> entry_ptr \<Rightarrow> 'k \<Rightarrow> bool" where
  "node_key_equals entries e key =
     (case e of Entry_ptr p \<Rightarrow> p < length entries \<and> fst (entries ! p) = key | _ \<Rightarrow> False)"

function node_insert_internal_loop ::
  "('k, 'v) node_map \<Rightarrow> nat \<Rightarrow> entry_ptr \<Rightarrow> nat \<Rightarrow> nat \<Rightarrow> error + ('k, 'v) node_map"
where
  "node_insert_internal_loop m hash entry index i =
     (if i < n_capacity m then
        let pos = probe (n_capacity m) index i in
        if pos < length (n_table m) then
          if node_is_empty (n_table m ! pos) \<or> node_is_tombstone (n_table m ! pos) then
            Inr (m\<lparr>n_tombstone_count :=
                      (if node_is_tombstone (n_table m ! pos)
                       then size_t_dec (n_tombstone_count m) else n_tombstone_count m),
                    n_table := (n_table m)[pos := \<lparr>ns_hash = hash, ns_entry = entry\<rparr>]\<rparr>)
          else node_insert_internal_loop m hash entry index (i + 1)
        else Inl Out_of_range
      else Inl Table_full)"
  by pat_completeness auto
termination
  by (relation "measure (\<lambda>(m, hash, entry, index, i). n_capacity m - i)") auto

definition node_insert_internal ::
  "('k, 'v) node_map \<Rightarrow> nat \<Rightarrow> entry_ptr \<Rightarrow> error + ('k, 'v) node_map"
where
  "node_insert_internal m hash entry =
     node_insert_internal_loop m hash entry (hash AND size_t_dec (n_capacity m)) 0"

fun node_rehash_loop :: "node_slot list \<Rightarrow> ('k, 'v) node_map \<Rightarrow> error + ('k, 'v) node_map" where
  "node_rehash_loop [] m = Inr m"
| "node_rehash_loop (slot # old_table) m =
     (if \<not> node_is_empty slot \<and> \<not> node_is_tombstone slot then
        (case node_insert_internal m (ns_hash slot) (ns_entry slot) of
           Inl e \<Rightarrow> Inl e
         | Inr m' \<Rightarrow> node_rehash_loop old_table m')
      else node_rehash_loop old_table m)"

definition node_rehash :: "('k, 'v) node_map \<Rightarrow> nat \<Rightarrow> error + ('k, 'v) node_map" where
  "node_rehash m new_capacity =
     node_rehash_loop (n_table m)
       (m\<lparr>n_table := replicate new_capacity node_Slot,
          n_capacity := new_capacity,
          n_tombstone_count := 0\<rparr>)"

function node_find_slot_loop ::
  "('k, 'v) node_map \<Rightarrow> 'k \<Rightarrow> nat \<Rightarrow> nat \<Rightarrow> nat \<Rightarrow> error + nat"
where
  "node_find_slot_loop m key hash index i =
     (if i < n_capacity m then
        let pos = probe (n_capacity m) index i in
        if pos < length (n_table m) then
          if node_is_empty (n_table m ! pos) then Inr (n_capacity m)
          else if node_is_tombstone (n_table m ! pos) then
            node_find_slot_loop m key hash index (i + 1)
          else if ns_hash (n_table m ! pos) = hash
                  \<and> node_key_equals (n_entries m) (ns_entry (n_table m ! pos)) key
            then Inr pos
          else node_find_slot_loop m key hash index (i + 1)
        else Inl Out_of_range
      else Inr (n_capacity m))"
  by pat_completeness auto
termination
  by (relation "measure (\<lambda>(m, key, hash, index, i). n_capacity m - i)") auto

definition node_find_slot :: "('k, 'v) node_map \<Rightarrow> 'k \<Rightarrow> nat \<Rightarrow> error + nat" where
  "node_find_slot m key hash =
     node_find_slot_loop m key hash (hash AND size_t_dec (n_capacity m)) 0"

definition NodeHashMap :: "('k, 'v) node_map" where
  "NodeHashMap =
     \<lparr>n_table = replicate INITIAL_CAPACITY node_Slot, n_entries = [], n_size = 0,
      n_capacity = INITIAL_CAPACITY, n_tombstone_count = 0\<rparr>"

definition NodeHashMap_sized :: "nat \<Rightarrow> ('k, 'v) node_map option" where
  "NodeHashMap_sized expected_size =
     (case scaled_expected_size expected_size of
        None \<Rightarrow> None
      | Some n \<Rightarrow>
          let capacity = unat (next_power_of_2 (word_of_nat n)) in
          Some \<lparr>n_table = replicate capacity node_Slot, n_entries = [], n_size = 0,
                n_capacity = capacity, n_tombstone_count = 0\<rparr>)"

fun node_construct :: "ctor \<Rightarrow> ('k, 'v) node_map option" where
  "node_construct Default_ctor = Some NodeHashMap"
| "node_construct (Sized_ctor expected_size) = NodeHashMap_sized expected_size"

text \<open>
  The move operations are defaulted: each member is moved on its own. A moved-from
  \<open>std::vector\<close> is empty; moving a \<open>size_t\<close> copies it.
\<close>

definition node_move :: "('k, 'v) node_map \<Rightarrow> ('k, 'v) node_map \<times> ('k, 'v) node_map" where
  "node_move other =
     (\<lparr>n_table = n_table other, n_entries = n_entries other, n_size = n_size other,
       n_capacity = n_capacity other, n_tombstone_count = n_tombstone_count other\<rparr>,
      other\<lparr>n_table := [], n_entries := []\<rparr>)"

definition node_move_assign ::
  "('k, 'v) node_map \<Rightarrow> ('k, 'v) node_map \<Rightarrow> ('k, 'v) node_map \<times> ('k, 'v) node_map"
where
  "node_move_assign this other =
     (\<lparr>n_table = n_table other, n_entries = n_entries other, n_size = n_size other,
       n_capacity = n_capacity other, n_tombstone_count = n_tombstone_count other\<rparr>,
      other\<lparr>n_table := [], n_entries := []\<rparr>)"

definition node_size :: "('k, 'v) node_map \<Rightarrow> nat" where
  "node_size m = n_size m"

definition node_empty :: "('k, 'v) node_map \<Rightarrow> bool" where
  "node_empty m = (n_size m = 0)"

definition node_capacity :: "('k, 'v) node_map \<Rightarrow> nat" where
  "node_capacity m = n_capacity m"

definition node_clear :: "('k, 'v) node_map \<Rightarrow> ('k, 'v) node_map" where
  "node_clear m =
     m\<lparr>n_table := replicate (n_capacity m) node_Slot, n_entries := [],
       n_size := 0, n_tombstone_count := 0\<rparr>"

text \<open>\<open>table_[pos].entry->data.second = value\<close>, and the address of that value.\<close>

definition node_assign_value :: "('k \<times> 'v) list \<Rightarrow> entry_ptr \<Rightarrow> 'v \<Rightarrow> ('k \<times> 'v) list" where
  "node_assign_value entries e val =
     (case e of Entry_ptr p \<Rightarrow> entries[p := (fst (entries ! p), val)] | _ \<Rightarrow> entries)"

definition node_value_ptr :: "entry_ptr \<Rightarrow> nat" where
  "node_value_ptr e = (case e of Entry_ptr p \<Rightarrow> p | Null_ptr \<Rightarrow> 0 | Tombstone_ptr \<Rightarrow> 1)"

function node_insert_loop ::
  "('k, 'v) node_map \<Rightarrow> 'k \<Rightarrow> 'v \<Rightarrow> nat \<Rightarrow> nat \<Rightarrow> nat \<Rightarrow> nat
     \<Rightarrow> error + (('k, 'v) node_map \<times> nat \<times> bool)"
where
  "node_insert_loop m key val hash index first_tombstone i =
     (if i < n_capacity m then
        let pos = probe (n_capacity m) index i in
        if pos < length (n_table m) then
          if node_is_empty (n_table m ! pos) then
            let insert_pos = (if first_tombstone \<noteq> n_capacity m then first_tombstone else pos);
                entry_ptr = length (n_entries m)
            in Inr (m\<lparr>n_tombstone_count :=
                         (if first_tombstone \<noteq> n_capacity m
                          then size_t_dec (n_tombstone_count m) else n_tombstone_count m),
                       n_entries := n_entries m @ [(key, val)],
                       n_table := (n_table m)
                         [insert_pos := \<lparr>ns_hash = hash, ns_entry = Entry_ptr entry_ptr\<rparr>],
                       n_size := n_size m + 1\<rparr>,
                    entry_ptr, True)
          else if node_is_tombstone (n_table m ! pos) \<and> first_tombstone = n_capacity m then
            node_insert_loop m key val hash index pos (i + 1)
          else if \<not> node_is_tombstone (n_table m ! pos) \<and> ns_hash (n_table m ! pos) = hash
                  \<and> node_key_equals (n_entries m) (ns_entry (n_table m ! pos)) key then
            Inr (m\<lparr>n_entries :=
                      node_assign_value (n_entries m) (ns_entry (n_table m ! pos)) val\<rparr>,
                 node_value_ptr (ns_entry (n_table m ! pos)), False)
          else node_insert_loop m key val hash index first_tombstone (i + 1)
        else Inl Out_of_range
      else Inl Table_full)"
  by pat_completeness auto
termination
  by (relation "measure (\<lambda>(m, key, val, hash, index, first_tombstone, i). n_capacity m - i)")
    auto

definition node_insert ::
  "('k \<Rightarrow> nat) \<Rightarrow> ('k, 'v) node_map \<Rightarrow> 'k \<Rightarrow> 'v \<Rightarrow> error + (('k, 'v) node_map \<times> nat \<times> bool)"
where
  "node_insert hf m key val =
     (case (if quotient_exceeds (n_size m + 1) (n_capacity m) MAX_LOAD_FACTOR
               \<or> quotient_exceeds (n_tombstone_count m) (n_capacity m) MAX_TOMBSTONE_RATIO
            then node_rehash m (n_capacity m * 2) else Inr m) of
        Inl e \<Rightarrow> Inl e
      | Inr m1 \<Rightarrow>
          let hash = make_hash (hf key);
              index = hash AND size_t_dec (n_capacity m1)
          in node_insert_loop m1 key val hash index (n_capacity m1) 0)"

definition node_find :: "('k \<Rightarrow> nat) \<Rightarrow> ('k, 'v) node_map \<Rightarrow> 'k \<Rightarrow> error + nat option" where
  "node_find hf m key =
     (case node_find_slot m key (make_hash (hf key)) of
        Inl e \<Rightarrow> Inl e
      | Inr pos \<Rightarrow>
          if pos = n_capacity m then Inr None
          else Inr (Some (node_value_ptr (ns_entry (n_table m ! pos)))))"

definition node_contains :: "('k \<Rightarrow> nat) \<Rightarrow> ('k, 'v) node_map \<Rightarrow> 'k \<Rightarrow> error + bool" where
  "node_contains hf m key =
     (case node_find hf m key of Inl e \<Rightarrow> Inl e | Inr p \<Rightarrow> Inr (p \<noteq> None))"

definition node_deref :: "('k, 'v) node_map \<Rightarrow> nat \<Rightarrow> 'v option" where
  "node_deref m p = (if p < length (n_entries m) then Some (snd (n_entries m ! p)) else None)"

definition node_subscript ::
  "('k \<Rightarrow> nat) \<Rightarrow> 'v \<Rightarrow> ('k, 'v) node_map \<Rightarrow> 'k \<Rightarrow> error + (('k, 'v) node_map \<times> nat)"
where
  "node_subscript hf dv m key =
     (case node_find_slot m key (make_hash (hf key)) of
        Inl e \<Rightarrow> Inl e
      | Inr pos \<Rightarrow>
          if pos \<noteq> n_capacity m then Inr (m, node_value_ptr (ns_entry (n_table m ! pos)))
          else (case node_insert hf m key dv of
                  Inl e \<Rightarrow> Inl e
                | Inr (m', p, inserted) \<Rightarrow> Inr (m', p)))"

definition node_erase ::
  "('k \<Rightarrow> nat) \<Rightarrow> ('k, 'v) node_map \<Rightarrow> 'k \<Rightarrow> error + (('k, 'v) node_map \<times> bool)"
where
  "node_erase hf m key =
     (case node_find_slot m key (make_hash (hf key)) of
        Inl e \<Rightarrow> Inl e
      | Inr pos \<Rightarrow>
          if pos = n_capacity m then Inr (m, False)
          else
            let m1 = m\<lparr>n_table := (n_table m)
                          [pos := \<lparr>ns_hash = TOMBSTONE_HASH, ns_entry = tombstone_ptr\<rparr>],
                       n_tombstone_count := n_tombstone_count m + 1,
                       n_size := size_t_dec (n_size m)\<rparr>
            in if quotient_exceeds (n_tombstone_count m1) (n_capacity m1) MAX_TOMBSTONE_RATIO
                  \<and> 0 < n_size m1
               then (case node_rehash m1 (n_capacity m1) of
                       Inl e \<Rightarrow> Inl e
                     | Inr m2 \<Rightarrow> Inr (m2, True))
               else Inr (m1, True))"

fun node_call ::
  "('k \<Rightarrow> nat) \<Rightarrow> 'v \<Rightarrow> ('k, 'v) node_map \<Rightarrow> ('k, 'v) call \<Rightarrow> error + ('k, 'v) node_map"
where
  "node_call hf dv m (Insert key val) = map_sum id fst (node_insert hf m key val)"
| "node_call hf dv m (Erase key) = map_sum id fst (node_erase hf m key)"
| "node_call hf dv m Clear = Inr (node_clear m)"
| "node_call hf dv m (Subscript key) = map_sum id fst (node_subscript hf dv m key)"
| "node_call hf dv m (Find key) = map_sum id (\<lambda>_. m) (node_find hf m key)"
| "node_call hf dv m (Contains key) = map_sum id (\<lambda>_. m) (node_contains hf m key)"

fun node_run ::
  "('k \<Rightarrow> nat) \<Rightarrow> 'v \<Rightarrow> ('k, 'v) node_map \<Rightarrow> ('k, 'v) call list \<Rightarrow> error + ('k, 'v) node_map"
where
  "node_run hf dv m [] = Inr m"
| "node_run hf dv m (c # cs) =
     (case node_call hf dv m c of Inl e \<Rightarrow> Inl e | Inr m' \<Rightarrow> node_run hf dv m' cs)"

section \<open>Predicates used in the proofs\<close>

text \<open>
  \<open>smeared x a y\<close>: bit \<open>i\<close> of \<open>y\<close> is set iff one of the \<open>a\<close> bits of \<open>x\<close> from \<open>i\<close> upwards is.
\<close>

definition smeared :: "64 word \<Rightarrow> nat \<Rightarrow> 64 word \<Rightarrow> bool" where
  "smeared x a y \<longleftrightarrow> (\<forall>i. bit y i \<longleftrightarrow> (\<exists>j. i \<le> j \<and> j < i + a \<and> bit x j))"

text \<open>
  The invariant of the inline backend: every occupied slot holds a live pair under the
  sanitised hash of its key, no key occurs twice, and no empty slot lies on the probe
  path from the home slot of an occupied slot to that slot.
\<close>


definition flat_occupied :: "('k, 'v) flat_slot \<Rightarrow> bool" where
  "flat_occupied slot \<longleftrightarrow> \<not> flat_is_empty slot \<and> \<not> flat_is_tombstone slot"

definition flat_slots_ok :: "('k \<Rightarrow> nat) \<Rightarrow> ('k, 'v) flat_slot list \<Rightarrow> bool" where
  "flat_slots_ok hf t \<longleftrightarrow>
     (\<forall>s\<in>set t. flat_occupied s \<longrightarrow>
        (\<exists>k v. fs_key s = Some k \<and> fs_value s = Some v \<and> fs_hash s = make_hash (hf k)))"

definition flat_keys_distinct :: "('k, 'v) flat_slot list \<Rightarrow> bool" where
  "flat_keys_distinct t \<longleftrightarrow>
     (\<forall>p q. p < length t \<longrightarrow> q < length t \<longrightarrow> flat_occupied (t ! p) \<longrightarrow> flat_occupied (t ! q)
        \<longrightarrow> fs_key (t ! p) = fs_key (t ! q) \<longrightarrow> p = q)"

definition flat_probe_ok :: "('k, 'v) flat_slot list \<Rightarrow> bool" where
  "flat_probe_ok t \<longleftrightarrow>
     (\<forall>p<length t. flat_occupied (t ! p) \<longrightarrow>
        (\<exists>d<length t. p = (fs_hash (t ! p) + d) mod length t
           \<and> (\<forall>j<d. \<not> flat_is_empty (t ! ((fs_hash (t ! p) + j) mod length t)))))"

definition flat_table_ok :: "('k \<Rightarrow> nat) \<Rightarrow> ('k, 'v) flat_slot list \<Rightarrow> bool" where
  "flat_table_ok hf t \<longleftrightarrow> flat_slots_ok hf t \<and> flat_keys_distinct t \<and> flat_probe_ok t"

definition flat_contents :: "('k, 'v) flat_slot list \<Rightarrow> ('k \<times> 'v) set" where
  "flat_contents t =
     {(k, v). \<exists>s\<in>set t. flat_occupied s \<and> fs_key s = Some k \<and> fs_value s = Some v}"

definition flat_wf :: "('k \<Rightarrow> nat) \<Rightarrow> ('k, 'v) flat_map \<Rightarrow> bool" where
  "flat_wf hf m \<longleftrightarrow>
     length (f_table m) = f_capacity m
     \<and> f_size m = length (filter flat_occupied (f_table m))
     \<and> f_tombstone_count m = length (filter flat_is_tombstone (f_table m))
     \<and> flat_table_ok hf (f_table m)"

definition flat_inv :: "('k \<Rightarrow> nat) \<Rightarrow> ('k, 'v) flat_map \<Rightarrow> bool" where
  "flat_inv hf m \<longleftrightarrow>
     flat_wf hf m
     \<and> (f_capacity m = 0 \<or> (\<exists>n. f_capacity m = 2 ^ n))
     \<and> 4 * f_size m \<le> 3 * f_capacity m
     \<and> (f_size m = 0 \<or> 4 * f_tombstone_count m \<le> f_capacity m)"


text \<open>
  What a client reads through the pointer that \<open>find\<close> returns: the error, \<open>None\<close> for
  \<open>nullptr\<close>, or the value the pointer designates.
\<close>

definition flat_find_value ::
  "('k \<Rightarrow> nat) \<Rightarrow> ('k, 'v) flat_map \<Rightarrow> 'k \<Rightarrow> error + 'v option" where
  "flat_find_value hf m key =
     (case flat_find hf m key of
        Inl e \<Rightarrow> Inl e
      | Inr None \<Rightarrow> Inr None
      | Inr (Some p) \<Rightarrow> Inr (flat_deref m p))"

definition node_find_value ::
  "('k \<Rightarrow> nat) \<Rightarrow> ('k, 'v) node_map \<Rightarrow> 'k \<Rightarrow> error + 'v option" where
  "node_find_value hf m key =
     (case node_find hf m key of
        Inl e \<Rightarrow> Inl e
      | Inr None \<Rightarrow> Inr None
      | Inr (Some p) \<Rightarrow> Inr (node_deref m p))"

text \<open>
  The relation between the two backends: the same counters, and slot by slot the same
  hash and state, an occupied slot of the inline table holding the pair that the entry
  of the indirect table's slot holds.
\<close>

definition slot_rel :: "('k \<times> 'v) list \<Rightarrow> ('k, 'v) flat_slot \<Rightarrow> node_slot \<Rightarrow> bool" where
  "slot_rel es f s \<longleftrightarrow>
     fs_hash f = ns_hash s
     \<and> (case ns_entry s of
          Null_ptr \<Rightarrow> fs_hash f = EMPTY_HASH
        | Tombstone_ptr \<Rightarrow> fs_hash f = TOMBSTONE_HASH
        | Entry_ptr p \<Rightarrow> 2 \<le> fs_hash f \<and> p < length es
            \<and> fs_key f = Some (fst (es ! p)) \<and> fs_value f = Some (snd (es ! p)))"

definition map_rel :: "('k, 'v) flat_map \<Rightarrow> ('k, 'v) node_map \<Rightarrow> bool" where
  "map_rel fm nm \<longleftrightarrow>
     f_size fm = n_size nm \<and> f_capacity fm = n_capacity nm
     \<and> f_tombstone_count fm = n_tombstone_count nm
     \<and> list_all2 (slot_rel (n_entries nm)) (f_table fm) (n_table nm)"

text \<open>
  A key is stored in a map when a slot of its table holds it: an occupied slot of the
  inline table with that key, a slot of the indirect table whose entry has that key.
  This reads the table as data and runs no probe.
\<close>

definition flat_stores :: "('k, 'v) flat_map \<Rightarrow> 'k \<Rightarrow> bool" where
  "flat_stores m k \<longleftrightarrow> (\<exists>s\<in>set (f_table m). flat_occupied s \<and> fs_key s = Some k)"

definition node_stores :: "('k, 'v) node_map \<Rightarrow> 'k \<Rightarrow> bool" where
  "node_stores m k \<longleftrightarrow> (\<exists>s\<in>set (n_table m). node_key_equals (n_entries m) (ns_entry s) k)"

declare bit_length.simps [simp del]


lemma load_exceeds_iff:
  "quotient_exceeds a b MAX_LOAD_FACTOR \<longleftrightarrow> 3 * b < 4 * a"
proof (cases "b = 0")
  case True
  then show ?thesis by (simp add: quotient_exceeds_def)
next
  case False
  then have "0 < rat_of_nat b" by simp
  then have "(3 / 4 < rat_of_nat a / rat_of_nat b) \<longleftrightarrow> (3 / 4 * rat_of_nat b < rat_of_nat a)"
    by (simp add: pos_less_divide_eq)
  also have "\<dots> \<longleftrightarrow> rat_of_nat (3 * b) < rat_of_nat (4 * a)"
    by (simp add: field_simps)
  also have "\<dots> \<longleftrightarrow> 3 * b < 4 * a"
    by (simp only: of_nat_less_iff)
  finally show ?thesis using False
    by (simp add: quotient_exceeds_def MAX_LOAD_FACTOR_def)
qed

lemma tombstones_exceed_iff:
  "quotient_exceeds a b MAX_TOMBSTONE_RATIO \<longleftrightarrow> b < 4 * a"
proof (cases "b = 0")
  case True
  then show ?thesis by (simp add: quotient_exceeds_def)
next
  case False
  then have "0 < rat_of_nat b" by simp
  then have "(1 / 4 < rat_of_nat a / rat_of_nat b) \<longleftrightarrow> (1 / 4 * rat_of_nat b < rat_of_nat a)"
    by (simp add: pos_less_divide_eq)
  also have "\<dots> \<longleftrightarrow> rat_of_nat b < rat_of_nat (4 * a)"
    by (simp add: field_simps)
  also have "\<dots> \<longleftrightarrow> b < 4 * a"
    by (simp only: of_nat_less_iff)
  finally show ?thesis using False
    by (simp add: quotient_exceeds_def MAX_TOMBSTONE_RATIO_def)
qed

lemma size_t_dec_pow2: "size_t_dec (2 ^ n) = mask n"
  by (simp add: size_t_dec_def mask_eq_exp_minus_1)

lemma home_pow2: "h AND size_t_dec (2 ^ n) = h mod 2 ^ n"
  by (simp add: size_t_dec_pow2 and_mask_mod_2p take_bit_eq_mod flip: take_bit_eq_mask)

lemma probe_pow2: "probe (2 ^ n) index i = (index + i) mod 2 ^ n"
  by (simp add: probe_def home_pow2)


lemma smeared_start: "smeared x 1 x"
  unfolding smeared_def
proof (intro allI iffI)
  fix i assume "bit x i" then show "\<exists>j. i \<le> j \<and> j < i + 1 \<and> bit x j" by auto
next
  fix i assume "\<exists>j. i \<le> j \<and> j < i + 1 \<and> bit x j"
  then obtain j where "i \<le> j" "j < i + 1" "bit x j" by blast
  then have "j = i" by simp
  with \<open>bit x j\<close> show "bit x i" by simp
qed

lemma smeared_step:
  assumes "smeared x a y"
  shows "smeared x (2 * a) (y OR drop_bit a y)"
  unfolding smeared_def
proof (intro allI)
  fix i
  have "bit (y OR drop_bit a y) i \<longleftrightarrow> bit y i \<or> bit y (a + i)"
    by (simp add: bit_or_iff bit_drop_bit_eq)
  also have "\<dots> \<longleftrightarrow> (\<exists>j. i \<le> j \<and> j < i + a \<and> bit x j) \<or> (\<exists>j. a + i \<le> j \<and> j < a + i + a \<and> bit x j)"
    using assms by (simp add: smeared_def)
  also have "\<dots> \<longleftrightarrow> (\<exists>j. i \<le> j \<and> j < i + 2 * a \<and> bit x j)"
  proof
    assume "(\<exists>j. i \<le> j \<and> j < i + a \<and> bit x j) \<or> (\<exists>j. a + i \<le> j \<and> j < a + i + a \<and> bit x j)"
    then show "\<exists>j. i \<le> j \<and> j < i + 2 * a \<and> bit x j"
      by (elim disjE exE) (rule_tac x = j in exI, simp)+
  next
    assume "\<exists>j. i \<le> j \<and> j < i + 2 * a \<and> bit x j"
    then obtain j where j: "i \<le> j" "j < i + 2 * a" "bit x j" by blast
    show "(\<exists>j. i \<le> j \<and> j < i + a \<and> bit x j) \<or> (\<exists>j. a + i \<le> j \<and> j < a + i + a \<and> bit x j)"
    proof (cases "j < i + a")
      case True with j show ?thesis by blast
    next
      case False
      with j have "a + i \<le> j \<and> j < a + i + a \<and> bit x j" by simp
      then show ?thesis by blast
    qed
  qed
  finally show "bit (y OR drop_bit a y) i \<longleftrightarrow> (\<exists>j. i \<le> j \<and> j < i + 2 * a \<and> bit x j)" .
qed

lemma smeared_64_downward:
  assumes "smeared x 64 y" "bit y i" "i' \<le> i"
  shows "bit y i'"
proof -
  from assms obtain j where j: "i \<le> j" "bit x j" by (auto simp: smeared_def)
  then have "j < 64" by (auto dest: bit_imp_le_length)
  with j assms(3) have "i' \<le> j \<and> j < i' + 64 \<and> bit x j" by simp
  with assms(1) show ?thesis unfolding smeared_def by blast
qed

lemma downward_closed_succ:
  fixes y :: "64 word"
  assumes dc: "\<And>i i'. bit y i \<Longrightarrow> i' \<le> i \<Longrightarrow> bit y i'"
  shows "y + 1 = 0 \<or> (\<exists>k<64. y + 1 = 2 ^ k)"
proof (cases "\<forall>i<64. bit y i")
  case True
  have "y = - 1"
    by (rule bit_word_eqI) (use True in simp)
  then show ?thesis by simp
next
  case False
  define k where "k = (LEAST i. \<not> bit y i)"
  from False obtain i0 where i0: "i0 < 64" "\<not> bit y i0" by blast
  have nk: "\<not> bit y k" unfolding k_def using i0(2) by (rule LeastI)
  have kle: "k \<le> i0" unfolding k_def using i0(2) by (rule Least_le)
  have below: "bit y i" if "i < k" for i
    using that not_less_Least unfolding k_def by blast
  have above: "\<not> bit y i" if "k \<le> i" for i
    using dc [of i k] nk that by blast
  have "y = mask k"
  proof (rule bit_word_eqI)
    fix i assume "i < LENGTH(64)"
    show "bit y i \<longleftrightarrow> bit (mask k :: 64 word) i"
    proof (cases "i < k")
      case True
      with below \<open>i < LENGTH(64)\<close> show ?thesis by (simp add: bit_mask_iff)
    next
      case False
      then have "k \<le> i" by simp
      with above show ?thesis by (simp add: bit_mask_iff)
    qed
  qed
  then have "y + 1 = 2 ^ k" by (simp add: mask_eq_exp_minus_1)
  moreover have "k < 64" using kle i0(1) by simp
  ultimately show ?thesis by blast
qed

lemma next_power_of_2_cases:
  "next_power_of_2 n = 0 \<or> (\<exists>k<64. next_power_of_2 n = 2 ^ k)"
proof (cases "n = 0")
  case True
  have "(1 :: 64 word) = 2 ^ 0" by simp
  with True show ?thesis unfolding next_power_of_2_def by (metis zero_less_numeral)
next
  case False
  define y1 where "y1 = (n - 1) OR drop_bit 1 (n - 1)"
  define y2 where "y2 = y1 OR drop_bit 2 y1"
  define y3 where "y3 = y2 OR drop_bit 4 y2"
  define y4 where "y4 = y3 OR drop_bit 8 y3"
  define y5 where "y5 = y4 OR drop_bit 16 y4"
  define y6 where "y6 = y5 OR drop_bit 32 y5"
  have "smeared (n - 1) 2 y1"
    unfolding y1_def using smeared_step [OF smeared_start [of "n - 1"]] by simp
  then have "smeared (n - 1) 4 y2"
    unfolding y2_def using smeared_step [of "n - 1" 2 y1] by simp
  then have "smeared (n - 1) 8 y3"
    unfolding y3_def using smeared_step [of "n - 1" 4 y2] by simp
  then have "smeared (n - 1) 16 y4"
    unfolding y4_def using smeared_step [of "n - 1" 8 y3] by simp
  then have "smeared (n - 1) 32 y5"
    unfolding y5_def using smeared_step [of "n - 1" 16 y4] by simp
  then have s6: "smeared (n - 1) 64 y6"
    unfolding y6_def using smeared_step [of "n - 1" 32 y5] by simp
  have "next_power_of_2 n = y6 + 1"
    using False by (simp add: next_power_of_2_def Let_def y1_def y2_def y3_def y4_def y5_def y6_def)
  moreover have "y6 + 1 = 0 \<or> (\<exists>k<64. y6 + 1 = 2 ^ k)"
    by (rule downward_closed_succ) (rule smeared_64_downward [OF s6])
  ultimately show ?thesis by simp
qed

lemma exp_64_of_nat: "(2 :: 64 word) ^ k = word_of_nat (2 ^ k)"
  by simp

lemma exp_less_64: "k < 64 \<Longrightarrow> (2 :: nat) ^ k < 2 ^ 64"
  by (rule power_strict_increasing) simp_all

lemma unat_exp_64: "k < 64 \<Longrightarrow> unat ((2 :: 64 word) ^ k) = 2 ^ k"
  unfolding exp_64_of_nat unat_of_nat using exp_less_64 [of k] by simp

lemma unat_next_power_of_2:
  "unat (next_power_of_2 n) = 0 \<or> (\<exists>k. unat (next_power_of_2 n) = 2 ^ k)"
  using next_power_of_2_cases [of n] unat_exp_64 by (metis unsigned_0)

lemma probe_inj:
  fixes c :: nat
  assumes "i < c" "j < c" "(h + i) mod c = (h + j) mod c"
  shows "i = j"
proof -
  have aux: "a = b" if "a \<le> b" "b < c" "(h + a) mod c = (h + b) mod c" for a b
  proof -
    from that(1) have "h + a \<le> h + b" by simp
    then have "((h + b) mod c = (h + a) mod c) = (c dvd (h + b) - (h + a))"
      by (rule mod_eq_dvd_iff_nat)
    with that(3) have "c dvd (h + b) - (h + a)" by simp
    then have "c dvd b - a" by simp
    moreover have "b - a < c" using that by simp
    ultimately have "b - a = 0" by (meson dvd_imp_le not_less zero_less_iff_neq_zero)
    with that(1) show ?thesis by simp
  qed
  show ?thesis
  proof (cases "i \<le> j")
    case True then show ?thesis using aux [of i j] assms by simp
  next
    case False then show ?thesis using aux [of j i] assms by simp
  qed
qed

lemma probe_surj:
  fixes c :: nat
  assumes "q < c"
  shows "\<exists>d<c. (h + d) mod c = q"
proof -
  let ?d = "(q + (c - h mod c)) mod c"
  have "h mod c < c" using assms by simp
  have "(h + ?d) mod c = (h mod c + (q + (c - h mod c))) mod c"
    by (simp add: mod_simps)
  also have "h mod c + (q + (c - h mod c)) = q + c"
    using \<open>h mod c < c\<close> by simp
  also have "(q + c) mod c = q" using assms by simp
  finally have "(h + ?d) mod c = q" .
  moreover have "?d < c" using assms by simp
  ultimately show ?thesis by blast
qed

lemma probe_lt: "0 < c \<Longrightarrow> (h + i) mod c < (c::nat)"
  by simp

lemma make_hash_ge2: "2 \<le> make_hash h"
  by (simp add: make_hash_def EMPTY_HASH_def TOMBSTONE_HASH_def)

lemma flat_occupied_iff: "flat_occupied s \<longleftrightarrow> 2 \<le> fs_hash s"
  by (auto simp: flat_occupied_def flat_is_empty_def flat_is_tombstone_def EMPTY_HASH_def TOMBSTONE_HASH_def)

lemma flat_states_exclusive:
  "flat_is_empty s \<Longrightarrow> \<not> flat_is_tombstone s"
  "flat_is_empty s \<Longrightarrow> \<not> flat_occupied s"
  "flat_is_tombstone s \<Longrightarrow> \<not> flat_occupied s"
  by (auto simp: flat_occupied_def flat_is_empty_def flat_is_tombstone_def EMPTY_HASH_def TOMBSTONE_HASH_def)

text \<open>The probe sequence of a map whose capacity is a power of two.\<close>

lemma probe_home:
  "probe (2 ^ n) (h AND size_t_dec (2 ^ n)) i = (h + i) mod 2 ^ n"
  by (simp add: probe_pow2 home_pow2 mod_simps)


declare flat_find_slot_loop.simps [simp del]
declare flat_insert_loop.simps [simp del]
declare flat_insert_internal_loop.simps [simp del]
declare node_find_slot_loop.simps [simp del]
declare node_insert_loop.simps [simp del]
declare node_insert_internal_loop.simps [simp del]

lemma flat_find_slot_loop_hit:
  assumes cap: "f_capacity m = 2 ^ n" and len: "length (f_table m) = 2 ^ n"
    and p: "p = (hash + d) mod 2 ^ n"
    and path: "\<forall>j<d. \<not> flat_is_empty (f_table m ! ((hash + j) mod 2 ^ n))"
    and nomatch: "\<forall>j<d. flat_occupied (f_table m ! ((hash + j) mod 2 ^ n)) \<longrightarrow>
       \<not> (fs_hash (f_table m ! ((hash + j) mod 2 ^ n)) = hash
          \<and> fs_key (f_table m ! ((hash + j) mod 2 ^ n)) = Some key)"
    and here: "flat_occupied (f_table m ! p)" "fs_hash (f_table m ! p) = hash"
      "fs_key (f_table m ! p) = Some key"
    and d: "d < 2 ^ n" and i: "i \<le> d"
  shows "flat_find_slot_loop m key hash (hash AND size_t_dec (2 ^ n)) i = Inr p"
  using i
proof (induction "d - i" arbitrary: i)
  case 0
  then have "i = d" by simp
  have pos: "probe (2 ^ n) (hash AND size_t_dec (2 ^ n)) d = p"
    by (simp add: probe_home p)
  have "p < 2 ^ n" by (simp add: p)
  with here d show ?case
    unfolding \<open>i = d\<close>
    by (subst flat_find_slot_loop.simps)
      (simp add: cap len pos flat_occupied_def Let_def)
next
  case (Suc x)
  then have lt: "i < d" by simp
  let ?pos = "(hash + i) mod 2 ^ n"
  have pos: "probe (2 ^ n) (hash AND size_t_dec (2 ^ n)) i = ?pos"
    by (simp add: probe_home)
  have "?pos < 2 ^ n" by simp
  have ne: "\<not> flat_is_empty (f_table m ! ?pos)" using path lt by blast
  have nm: "flat_is_tombstone (f_table m ! ?pos) \<or>
     \<not> (fs_hash (f_table m ! ?pos) = hash \<and> fs_key (f_table m ! ?pos) = Some key)"
    using nomatch lt ne by (auto simp: flat_occupied_def)
  have IH: "flat_find_slot_loop m key hash (hash AND size_t_dec (2 ^ n)) (i + 1) = Inr p"
    using Suc.hyps(1) [of "i + 1"] Suc.hyps(2) lt by simp
  have "i < 2 ^ n" using lt d by simp
  then show ?case
    using ne nm IH
    by (subst flat_find_slot_loop.simps) (auto simp: cap len pos Let_def)
qed

lemma flat_find_slot_loop_miss:
  assumes cap: "f_capacity m = 2 ^ n" and len: "length (f_table m) = 2 ^ n"
    and nomatch: "\<forall>q<2 ^ n. flat_occupied (f_table m ! q) \<longrightarrow>
       \<not> (fs_hash (f_table m ! q) = hash \<and> fs_key (f_table m ! q) = Some key)"
  shows "flat_find_slot_loop m key hash (hash AND size_t_dec (2 ^ n)) i = Inr (2 ^ n)"
proof (induction "2 ^ n - i" arbitrary: i)
  case 0
  then show ?case
    by (subst flat_find_slot_loop.simps) (simp add: cap)
next
  case (Suc x)
  then have lt: "i < 2 ^ n" by simp
  let ?pos = "(hash + i) mod 2 ^ n"
  have pos: "probe (2 ^ n) (hash AND size_t_dec (2 ^ n)) i = ?pos"
    by (simp add: probe_home)
  have "?pos < 2 ^ n" by simp
  then have nm: "flat_is_empty (f_table m ! ?pos) \<or> flat_is_tombstone (f_table m ! ?pos) \<or>
     \<not> (fs_hash (f_table m ! ?pos) = hash \<and> fs_key (f_table m ! ?pos) = Some key)"
    using nomatch by (auto simp: flat_occupied_def)
  have IH: "flat_find_slot_loop m key hash (hash AND size_t_dec (2 ^ n)) (i + 1) = Inr (2 ^ n)"
    using Suc.hyps(1) [of "i + 1"] Suc.hyps(2) by simp
  show ?case
    using lt nm IH
    by (subst flat_find_slot_loop.simps) (auto simp: cap len pos Let_def)
qed

text \<open>What \<open>find_slot\<close> returns on a well-formed table.\<close>

lemma flat_find_slot_present:
  assumes cap: "f_capacity m = 2 ^ n" and len: "length (f_table m) = 2 ^ n"
    and ok: "flat_table_ok hf (f_table m)"
    and p: "p < 2 ^ n" "flat_occupied (f_table m ! p)" "fs_key (f_table m ! p) = Some key"
  shows "flat_find_slot m key (make_hash (hf key)) = Inr p"
proof -
  let ?t = "f_table m" and ?h = "make_hash (hf key)"
  from ok have sl: "flat_slots_ok hf ?t" and kd: "flat_keys_distinct ?t" and po: "flat_probe_ok ?t"
    by (simp_all add: flat_table_ok_def)
  have "?t ! p \<in> set ?t" using p(1) len by simp
  with sl p(2,3) have hp: "fs_hash (?t ! p) = ?h"
    unfolding flat_slots_ok_def by fastforce
  from po p(1,2) len obtain d where d: "d < 2 ^ n" "p = (?h + d) mod 2 ^ n"
    "\<forall>j<d. \<not> flat_is_empty (?t ! ((?h + j) mod 2 ^ n))"
    unfolding flat_probe_ok_def hp [symmetric] by (metis hp)
  have nomatch: "\<forall>j<d. flat_occupied (?t ! ((?h + j) mod 2 ^ n)) \<longrightarrow>
       \<not> (fs_hash (?t ! ((?h + j) mod 2 ^ n)) = ?h \<and> fs_key (?t ! ((?h + j) mod 2 ^ n)) = Some key)"
  proof (intro allI impI notI)
    fix j assume j: "j < d" and occ: "flat_occupied (?t ! ((?h + j) mod 2 ^ n))"
      and m: "fs_hash (?t ! ((?h + j) mod 2 ^ n)) = ?h \<and> fs_key (?t ! ((?h + j) mod 2 ^ n)) = Some key"
    have "(?h + j) mod 2 ^ n < length ?t" by (simp add: len)
    with kd occ m p len have "(?h + j) mod 2 ^ n = p"
      unfolding flat_keys_distinct_def by (metis)
    with d(2) have "(?h + j) mod 2 ^ n = (?h + d) mod 2 ^ n" by simp
    then have "j = d" using j d(1) by (intro probe_inj [of j "2 ^ n" d ?h]) simp_all
    with j show False by simp
  qed
  show ?thesis
    unfolding flat_find_slot_def cap
    by (rule flat_find_slot_loop_hit [OF cap len d(2) d(3) nomatch p(2) hp p(3) d(1)]) simp
qed

lemma flat_find_slot_absent:
  assumes cap: "f_capacity m = 2 ^ n" and len: "length (f_table m) = 2 ^ n"
    and absent: "\<forall>q<2 ^ n. flat_occupied (f_table m ! q) \<longrightarrow> fs_key (f_table m ! q) \<noteq> Some key"
  shows "flat_find_slot m key hash = Inr (2 ^ n)"
  unfolding flat_find_slot_def cap
  by (rule flat_find_slot_loop_miss [OF cap len]) (use absent in blast)

lemma flat_find_slot_zero:
  assumes "f_capacity m = 0"
  shows "flat_find_slot m key hash = Inr 0"
  unfolding flat_find_slot_def
  by (subst flat_find_slot_loop.simps) (simp add: assms)


lemma length_filter_update:
  "i < length xs \<Longrightarrow>
   length (filter P (xs[i := x])) + (if P (xs ! i) then 1 else 0)
     = length (filter P xs) + (if P x then 1 else 0)"
proof (induction xs arbitrary: i)
  case Nil
  then show ?case by simp
next
  case (Cons a xs)
  show ?case
  proof (cases i)
    case 0
    then show ?thesis by simp
  next
    case (Suc i')
    with Cons.prems have "i' < length xs" by simp
    from Cons.IH [OF this] show ?thesis using Suc by simp
  qed
qed

lemma flat_contents_iff:
  "(k, v) \<in> flat_contents t \<longleftrightarrow>
     (\<exists>p<length t. flat_occupied (t ! p) \<and> fs_key (t ! p) = Some k \<and> fs_value (t ! p) = Some v)"
proof
  assume "(k, v) \<in> flat_contents t"
  then obtain s where "s \<in> set t" "flat_occupied s" "fs_key s = Some k" "fs_value s = Some v"
    unfolding flat_contents_def by blast
  then show "\<exists>p<length t. flat_occupied (t ! p) \<and> fs_key (t ! p) = Some k \<and> fs_value (t ! p) = Some v"
    by (metis in_set_conv_nth)
next
  assume "\<exists>p<length t. flat_occupied (t ! p) \<and> fs_key (t ! p) = Some k \<and> fs_value (t ! p) = Some v"
  then obtain p where "p < length t" "flat_occupied (t ! p)" "fs_key (t ! p) = Some k"
    "fs_value (t ! p) = Some v" by blast
  then show "(k, v) \<in> flat_contents t"
    unfolding flat_contents_def using nth_mem [of p t] by blast
qed

lemma flat_slots_ok_iff:
  "flat_slots_ok hf t \<longleftrightarrow>
     (\<forall>p<length t. flat_occupied (t ! p) \<longrightarrow>
        (\<exists>k v. fs_key (t ! p) = Some k \<and> fs_value (t ! p) = Some v
           \<and> fs_hash (t ! p) = make_hash (hf k)))"
proof
  assume "flat_slots_ok hf t"
  then show "\<forall>p<length t. flat_occupied (t ! p) \<longrightarrow>
        (\<exists>k v. fs_key (t ! p) = Some k \<and> fs_value (t ! p) = Some v
           \<and> fs_hash (t ! p) = make_hash (hf k))"
    unfolding flat_slots_ok_def using nth_mem [of _ t] by blast
next
  assume "\<forall>p<length t. flat_occupied (t ! p) \<longrightarrow>
        (\<exists>k v. fs_key (t ! p) = Some k \<and> fs_value (t ! p) = Some v
           \<and> fs_hash (t ! p) = make_hash (hf k))"
  then show "flat_slots_ok hf t"
    unfolding flat_slots_ok_def by (metis in_set_conv_nth)
qed

lemma flat_new_slot_occupied:
  "flat_occupied \<lparr>fs_hash = make_hash h, fs_key = a, fs_value = b\<rparr>"
  using make_hash_ge2 [of h] by (simp add: flat_occupied_iff)

text \<open>Storing a new key in a free slot at the end of a gap-free probe path.\<close>

lemma flat_table_ok_place:
  assumes ok: "flat_table_ok hf t" and len: "0 < length t"
    and ip: "ip < length t" "\<not> flat_occupied (t ! ip)"
    and d: "d < length t" "ip = (make_hash (hf k) + d) mod length t"
      "\<forall>j<d. \<not> flat_is_empty (t ! ((make_hash (hf k) + j) mod length t))"
    and fresh: "\<forall>q<length t. flat_occupied (t ! q) \<longrightarrow> fs_key (t ! q) \<noteq> Some k"
  shows "flat_table_ok hf (t[ip := \<lparr>fs_hash = make_hash (hf k), fs_key = Some k, fs_value = Some v\<rparr>])"
proof -
  let ?new = "\<lparr>fs_hash = make_hash (hf k), fs_key = Some k, fs_value = Some v\<rparr> :: ('a, 'b) flat_slot"
  let ?t' = "t[ip := ?new]"
  from ok have sl: "flat_slots_ok hf t" and kd: "flat_keys_distinct t" and po: "flat_probe_ok t"
    by (simp_all add: flat_table_ok_def)
  have newocc: "flat_occupied ?new" by (rule flat_new_slot_occupied)
  have nth: "?t' ! q = (if q = ip then ?new else t ! q)" if "q < length t" for q
    using that by (simp add: nth_list_update)
  have nonempty: "\<not> flat_is_empty (?t' ! q)" if "q < length t" "\<not> flat_is_empty (t ! q)" for q
    using that newocc by (auto simp: nth flat_occupied_def)
  have "flat_slots_ok hf ?t'"
    unfolding flat_slots_ok_iff
  proof (intro allI impI)
    fix p assume p: "p < length ?t'" "flat_occupied (?t' ! p)"
    show "\<exists>k v. fs_key (?t' ! p) = Some k \<and> fs_value (?t' ! p) = Some v
           \<and> fs_hash (?t' ! p) = make_hash (hf k)"
    proof (cases "p = ip")
      case True
      then show ?thesis using ip(1) by simp
    next
      case False
      with p sl show ?thesis unfolding flat_slots_ok_iff by simp
    qed
  qed
  moreover have "flat_keys_distinct ?t'"
    unfolding flat_keys_distinct_def
  proof (intro allI impI)
    fix p q assume pq: "p < length ?t'" "q < length ?t'" "flat_occupied (?t' ! p)"
      "flat_occupied (?t' ! q)" "fs_key (?t' ! p) = fs_key (?t' ! q)"
    show "p = q"
    proof (cases "p = ip"; cases "q = ip")
      assume "p = ip" "q = ip" then show ?thesis by simp
    next
      assume *: "p = ip" "q \<noteq> ip"
      with pq have "flat_occupied (t ! q)" "fs_key (t ! q) = Some k" by simp_all
      with fresh pq(2) show ?thesis by simp
    next
      assume *: "p \<noteq> ip" "q = ip"
      with pq have "flat_occupied (t ! p)" "fs_key (t ! p) = Some k" by simp_all
      with fresh pq(1) show ?thesis by simp
    next
      assume *: "p \<noteq> ip" "q \<noteq> ip"
      with pq kd show ?thesis unfolding flat_keys_distinct_def by simp
    qed
  qed
  moreover have "flat_probe_ok ?t'"
    unfolding flat_probe_ok_def
  proof (intro allI impI)
    fix p assume p: "p < length ?t'" "flat_occupied (?t' ! p)"
    show "\<exists>d<length ?t'. p = (fs_hash (?t' ! p) + d) mod length ?t'
           \<and> (\<forall>j<d. \<not> flat_is_empty (?t' ! ((fs_hash (?t' ! p) + j) mod length ?t')))"
    proof (cases "p = ip")
      case True
      have "\<forall>j<d. \<not> flat_is_empty (?t' ! ((make_hash (hf k) + j) mod length t))"
        using d(3) len nonempty [of "(make_hash (hf k) + j) mod length t" for j] by simp
      with True d(1,2) ip(1) show ?thesis
        by (intro exI [of _ d]) simp
    next
      case False
      with p have occ: "flat_occupied (t ! p)" and pl: "p < length t" by simp_all
      with po obtain e where e: "e < length t" "p = (fs_hash (t ! p) + e) mod length t"
        "\<forall>j<e. \<not> flat_is_empty (t ! ((fs_hash (t ! p) + j) mod length t))"
        unfolding flat_probe_ok_def by blast
      have "\<forall>j<e. \<not> flat_is_empty (?t' ! ((fs_hash (t ! p) + j) mod length t))"
        using e(3) len nonempty [of "(fs_hash (t ! p) + j) mod length t" for j] by simp
      with e(1,2) False pl show ?thesis
        by (intro exI [of _ e]) simp
    qed
  qed
  ultimately show ?thesis by (simp add: flat_table_ok_def)
qed

lemma flat_contents_place:
  assumes ip: "ip < length t" "\<not> flat_occupied (t ! ip)" and occ: "flat_occupied \<lparr>fs_hash = h, fs_key = Some k, fs_value = Some v\<rparr>"
  shows "flat_contents (t[ip := \<lparr>fs_hash = h, fs_key = Some k, fs_value = Some v\<rparr>])
           = insert (k, v) (flat_contents t)"
proof (intro set_eqI, clarify)
  fix a b
  let ?new = "\<lparr>fs_hash = h, fs_key = Some k, fs_value = Some v\<rparr> :: ('a, 'b) flat_slot"
  show "(a, b) \<in> flat_contents (t[ip := ?new]) \<longleftrightarrow> (a, b) \<in> insert (k, v) (flat_contents t)"
  proof
    assume "(a, b) \<in> flat_contents (t[ip := ?new])"
    then obtain p where p: "p < length t" "flat_occupied (t[ip := ?new] ! p)"
      "fs_key (t[ip := ?new] ! p) = Some a" "fs_value (t[ip := ?new] ! p) = Some b"
      unfolding flat_contents_iff by auto
    show "(a, b) \<in> insert (k, v) (flat_contents t)"
    proof (cases "p = ip")
      case True with p show ?thesis by simp
    next
      case False
      with p have "(a, b) \<in> flat_contents t" unfolding flat_contents_iff
        by (intro exI [of _ p]) simp
      then show ?thesis by simp
    qed
  next
    assume "(a, b) \<in> insert (k, v) (flat_contents t)"
    then consider "(a, b) = (k, v)" | "(a, b) \<in> flat_contents t" by blast
    then show "(a, b) \<in> flat_contents (t[ip := ?new])"
    proof cases
      case 1
      with ip(1) occ show ?thesis unfolding flat_contents_iff
        by (intro exI [of _ ip]) simp
    next
      case 2
      then obtain p where p: "p < length t" "flat_occupied (t ! p)"
        "fs_key (t ! p) = Some a" "fs_value (t ! p) = Some b"
        unfolding flat_contents_iff by auto
      with ip(2) have "p \<noteq> ip" by auto
      with p show ?thesis unfolding flat_contents_iff
        by (intro exI [of _ p]) simp
    qed
  qed
qed


text \<open>Overwriting the value of an occupied slot.\<close>

lemma flat_table_ok_set_value:
  assumes ok: "flat_table_ok hf t" and q: "q < length t"
  shows "flat_table_ok hf (t[q := (t ! q)\<lparr>fs_value := Some v\<rparr>])"
proof -
  let ?t' = "t[q := (t ! q)\<lparr>fs_value := Some v\<rparr>]"
  from ok have sl: "flat_slots_ok hf t" and kd: "flat_keys_distinct t" and po: "flat_probe_ok t"
    by (simp_all add: flat_table_ok_def)
  have h: "fs_hash (?t' ! p) = fs_hash (t ! p)" if "p < length t" for p
    using that by (cases "p = q") simp_all
  have k: "fs_key (?t' ! p) = fs_key (t ! p)" if "p < length t" for p
    using that by (cases "p = q") simp_all
  have o: "flat_occupied (?t' ! p) = flat_occupied (t ! p)" if "p < length t" for p
    using that by (simp add: flat_occupied_iff h)
  have e: "flat_is_empty (?t' ! p) = flat_is_empty (t ! p)" if "p < length t" for p
    using that by (simp add: flat_is_empty_def h)
  have vv: "\<exists>w. fs_value (?t' ! p) = Some w" if "p < length t" "\<exists>w. fs_value (t ! p) = Some w" for p
    using that by (cases "p = q") simp_all
  have "flat_slots_ok hf ?t'"
    unfolding flat_slots_ok_iff
  proof (intro allI impI)
    fix p assume p: "p < length ?t'" "flat_occupied (?t' ! p)"
    then have "p < length t" "flat_occupied (t ! p)" using o by simp_all
    with sl obtain a b where "fs_key (t ! p) = Some a" "fs_value (t ! p) = Some b"
      "fs_hash (t ! p) = make_hash (hf a)" unfolding flat_slots_ok_iff by blast
    with \<open>p < length t\<close> vv [of p] show "\<exists>k v. fs_key (?t' ! p) = Some k \<and> fs_value (?t' ! p) = Some v
           \<and> fs_hash (?t' ! p) = make_hash (hf k)"
      by (simp add: h k)
  qed
  moreover have "flat_keys_distinct ?t'"
    using kd unfolding flat_keys_distinct_def by (simp add: o k)
  moreover have "flat_probe_ok ?t'"
    unfolding flat_probe_ok_def
  proof (intro allI impI)
    fix p assume p: "p < length ?t'" "flat_occupied (?t' ! p)"
    then have pl: "p < length t" and "flat_occupied (t ! p)" using o by simp_all
    with po obtain d where d: "d < length t" "p = (fs_hash (t ! p) + d) mod length t"
        "\<forall>j<d. \<not> flat_is_empty (t ! ((fs_hash (t ! p) + j) mod length t))"
      unfolding flat_probe_ok_def by blast
    have "0 < length t" using pl by (cases t) simp_all
    then have "\<forall>j<d. \<not> flat_is_empty (?t' ! ((fs_hash (t ! p) + j) mod length t))"
      using d(3) e [of "(fs_hash (t ! p) + j) mod length t" for j] by simp
    with d(1,2) pl show "\<exists>d<length ?t'. p = (fs_hash (?t' ! p) + d) mod length ?t'
           \<and> (\<forall>j<d. \<not> flat_is_empty (?t' ! ((fs_hash (?t' ! p) + j) mod length ?t')))"
      by (intro exI [of _ d]) (simp add: h)
  qed
  ultimately show ?thesis by (simp add: flat_table_ok_def)
qed

lemma flat_contents_set_value:
  assumes kd: "flat_keys_distinct t"
    and q: "q < length t" "flat_occupied (t ! q)" "fs_key (t ! q) = Some k"
  shows "flat_contents (t[q := (t ! q)\<lparr>fs_value := Some v\<rparr>])
           = insert (k, v) {(a, b) \<in> flat_contents t. a \<noteq> k}"
proof (intro set_eqI, clarify)
  fix a b
  let ?t' = "t[q := (t ! q)\<lparr>fs_value := Some v\<rparr>]"
  have oq: "flat_occupied (?t' ! q)" using q by (simp add: flat_occupied_iff)
  show "(a, b) \<in> flat_contents ?t' \<longleftrightarrow> (a, b) \<in> insert (k, v) {(a, b) \<in> flat_contents t. a \<noteq> k}"
  proof
    assume "(a, b) \<in> flat_contents ?t'"
    then obtain p where p: "p < length t" "flat_occupied (?t' ! p)"
      "fs_key (?t' ! p) = Some a" "fs_value (?t' ! p) = Some b"
      unfolding flat_contents_iff by auto
    show "(a, b) \<in> insert (k, v) {(a, b) \<in> flat_contents t. a \<noteq> k}"
    proof (cases "p = q")
      case True with p q show ?thesis by simp
    next
      case False
      with p have *: "flat_occupied (t ! p)" "fs_key (t ! p) = Some a" "fs_value (t ! p) = Some b"
        by simp_all
      with p(1) have "(a, b) \<in> flat_contents t" unfolding flat_contents_iff by blast
      moreover have "a \<noteq> k"
      proof
        assume "a = k"
        with * q kd p(1) have "p = q" unfolding flat_keys_distinct_def by metis
        with False show False by simp
      qed
      ultimately show ?thesis by simp
    qed
  next
    assume "(a, b) \<in> insert (k, v) {(a, b) \<in> flat_contents t. a \<noteq> k}"
    then consider "(a, b) = (k, v)" | "(a, b) \<in> flat_contents t" "a \<noteq> k" by blast
    then show "(a, b) \<in> flat_contents ?t'"
    proof cases
      case 1
      with q oq show ?thesis unfolding flat_contents_iff
        by (intro exI [of _ q]) simp
    next
      case 2
      then obtain p where p: "p < length t" "flat_occupied (t ! p)"
        "fs_key (t ! p) = Some a" "fs_value (t ! p) = Some b"
        unfolding flat_contents_iff by auto
      with q 2 have "p \<noteq> q" by auto
      with p show ?thesis unfolding flat_contents_iff
        by (intro exI [of _ p]) simp
    qed
  qed
qed

text \<open>Turning an occupied slot into a tombstone.\<close>

lemma flat_table_ok_tombstone:
  assumes ok: "flat_table_ok hf t" and q: "q < length t" and ts: "flat_is_tombstone s"
  shows "flat_table_ok hf (t[q := s])"
proof -
  let ?t' = "t[q := s]"
  from ok have sl: "flat_slots_ok hf t" and kd: "flat_keys_distinct t" and po: "flat_probe_ok t"
    by (simp_all add: flat_table_ok_def)
  have nos: "\<not> flat_occupied s" "\<not> flat_is_empty s"
    using ts flat_states_exclusive by blast+
  have same: "?t' ! p = t ! p" if "p < length t" "flat_occupied (?t' ! p)" for p
    using that nos by (cases "p = q") simp_all
  have ne: "\<not> flat_is_empty (?t' ! p)" if "p < length t" "\<not> flat_is_empty (t ! p)" for p
    using that nos by (cases "p = q") simp_all
  have "flat_slots_ok hf ?t'"
    unfolding flat_slots_ok_iff
  proof (intro allI impI)
    fix p assume p: "p < length ?t'" "flat_occupied (?t' ! p)"
    then have "?t' ! p = t ! p" using same by simp
    with p sl show "\<exists>k v. fs_key (?t' ! p) = Some k \<and> fs_value (?t' ! p) = Some v
           \<and> fs_hash (?t' ! p) = make_hash (hf k)"
      unfolding flat_slots_ok_iff by simp
  qed
  moreover have "flat_keys_distinct ?t'"
    unfolding flat_keys_distinct_def
  proof (intro allI impI)
    fix p r assume pr: "p < length ?t'" "r < length ?t'" "flat_occupied (?t' ! p)"
      "flat_occupied (?t' ! r)" "fs_key (?t' ! p) = fs_key (?t' ! r)"
    then have "?t' ! p = t ! p" "?t' ! r = t ! r" using same by simp_all
    with pr kd show "p = r" unfolding flat_keys_distinct_def by simp
  qed
  moreover have "flat_probe_ok ?t'"
    unfolding flat_probe_ok_def
  proof (intro allI impI)
    fix p assume p: "p < length ?t'" "flat_occupied (?t' ! p)"
    then have pl: "p < length t" and eq: "?t' ! p = t ! p" using same by simp_all
    with p po obtain d where d: "d < length t" "p = (fs_hash (t ! p) + d) mod length t"
        "\<forall>j<d. \<not> flat_is_empty (t ! ((fs_hash (t ! p) + j) mod length t))"
      unfolding flat_probe_ok_def by auto
    have "0 < length t" using pl by (cases t) simp_all
    then have "\<forall>j<d. \<not> flat_is_empty (?t' ! ((fs_hash (t ! p) + j) mod length t))"
      using d(3) ne [of "(fs_hash (t ! p) + j) mod length t" for j] by simp
    with d(1,2) show "\<exists>d<length ?t'. p = (fs_hash (?t' ! p) + d) mod length ?t'
           \<and> (\<forall>j<d. \<not> flat_is_empty (?t' ! ((fs_hash (?t' ! p) + j) mod length ?t')))"
      unfolding eq by (intro exI [of _ d]) simp
  qed
  ultimately show ?thesis by (simp add: flat_table_ok_def)
qed

lemma flat_contents_tombstone:
  assumes kd: "flat_keys_distinct t"
    and q: "q < length t" "flat_occupied (t ! q)" "fs_key (t ! q) = Some k"
    and ts: "flat_is_tombstone s"
  shows "flat_contents (t[q := s]) = {(a, b) \<in> flat_contents t. a \<noteq> k}"
proof (intro set_eqI, clarify)
  fix a b
  let ?t' = "t[q := s]"
  have nos: "\<not> flat_occupied s" using ts flat_states_exclusive by blast
  show "(a, b) \<in> flat_contents ?t' \<longleftrightarrow> (a, b) \<in> {(a, b) \<in> flat_contents t. a \<noteq> k}"
  proof
    assume "(a, b) \<in> flat_contents ?t'"
    then obtain p where p: "p < length t" "flat_occupied (?t' ! p)"
      "fs_key (?t' ! p) = Some a" "fs_value (?t' ! p) = Some b"
      unfolding flat_contents_iff by auto
    with nos q(1) have "p \<noteq> q" by auto
    with p have *: "flat_occupied (t ! p)" "fs_key (t ! p) = Some a" "fs_value (t ! p) = Some b"
      by simp_all
    with p(1) have "(a, b) \<in> flat_contents t" unfolding flat_contents_iff by blast
    moreover have "a \<noteq> k"
    proof
      assume "a = k"
      with * q kd p(1) have "p = q" unfolding flat_keys_distinct_def by metis
      with \<open>p \<noteq> q\<close> show False by simp
    qed
    ultimately show "(a, b) \<in> {(a, b) \<in> flat_contents t. a \<noteq> k}" by simp
  next
    assume "(a, b) \<in> {(a, b) \<in> flat_contents t. a \<noteq> k}"
    then have "(a, b) \<in> flat_contents t" "a \<noteq> k" by simp_all
    then obtain p where p: "p < length t" "flat_occupied (t ! p)"
        "fs_key (t ! p) = Some a" "fs_value (t ! p) = Some b"
      unfolding flat_contents_iff by auto
    with q \<open>a \<noteq> k\<close> have "p \<noteq> q" by auto
    with p show "(a, b) \<in> flat_contents ?t'" unfolding flat_contents_iff
      by (intro exI [of _ p]) simp
  qed
qed

text \<open>Counting slots by state.\<close>

lemma flat_state_counts:
  "length (filter flat_occupied t) + length (filter flat_is_tombstone t)
     + length (filter flat_is_empty t) = length t"
proof (induction t)
  case Nil
  then show ?case by simp
next
  case (Cons s t)
  then show ?case
    by (auto simp: flat_occupied_def dest: flat_states_exclusive)
qed

lemma flat_empty_slot_exists:
  assumes "length (filter flat_occupied t) + length (filter flat_is_tombstone t) < length t"
  shows "\<exists>q<length t. flat_is_empty (t ! q)"
proof -
  from assms flat_state_counts [of t] have "filter flat_is_empty t \<noteq> []" by auto
  then obtain s where "s \<in> set t" "flat_is_empty s"
    by (metis filter_False)
  then show ?thesis by (metis in_set_conv_nth)
qed


text \<open>
  The probe loop of \<open>insert\<close> on a table with an empty slot: it either finds the key and
  overwrites its value, or stops at the first empty slot of the probe sequence and stores
  the pair there or in the first tombstone it passed.
\<close>

lemma flat_insert_loop_result:
  assumes cap: "f_capacity m = 2 ^ n" and len: "length (f_table m) = 2 ^ n"
    and E: "\<exists>e<2 ^ n. flat_is_empty (f_table m ! ((hash + e) mod 2 ^ n))"
    and L1: "\<forall>j<i. \<not> flat_is_empty (f_table m ! ((hash + j) mod 2 ^ n))"
    and L2: "\<forall>j<i. flat_occupied (f_table m ! ((hash + j) mod 2 ^ n)) \<longrightarrow>
        \<not> (fs_hash (f_table m ! ((hash + j) mod 2 ^ n)) = hash
           \<and> fs_key (f_table m ! ((hash + j) mod 2 ^ n)) = Some key)"
    and L3: "ft = 2 ^ n \<or> (\<exists>j0<i. ft = (hash + j0) mod 2 ^ n \<and> flat_is_tombstone (f_table m ! ft))"
  shows "(\<exists>q<2 ^ n. flat_occupied (f_table m ! q) \<and> fs_hash (f_table m ! q) = hash
            \<and> fs_key (f_table m ! q) = Some key
            \<and> flat_insert_loop m key val hash (hash AND size_t_dec (2 ^ n)) ft i
                = Inr (m\<lparr>f_table := (f_table m)[q := (f_table m ! q)\<lparr>fs_value := Some val\<rparr>]\<rparr>, q, False))
       \<or> (\<exists>e<2 ^ n. flat_is_empty (f_table m ! ((hash + e) mod 2 ^ n))
            \<and> (\<forall>j<e. \<not> flat_is_empty (f_table m ! ((hash + j) mod 2 ^ n)))
            \<and> (\<forall>j<e. flat_occupied (f_table m ! ((hash + j) mod 2 ^ n)) \<longrightarrow>
                  \<not> (fs_hash (f_table m ! ((hash + j) mod 2 ^ n)) = hash
                     \<and> fs_key (f_table m ! ((hash + j) mod 2 ^ n)) = Some key))
            \<and> (\<exists>d\<le>e. \<not> flat_occupied (f_table m ! ((hash + d) mod 2 ^ n))
                  \<and> flat_insert_loop m key val hash (hash AND size_t_dec (2 ^ n)) ft i
                      = Inr (m\<lparr>f_tombstone_count :=
                                 (if flat_is_tombstone (f_table m ! ((hash + d) mod 2 ^ n))
                                  then size_t_dec (f_tombstone_count m) else f_tombstone_count m),
                               f_table := (f_table m)[(hash + d) mod 2 ^ n :=
                                 \<lparr>fs_hash = hash, fs_key = Some key, fs_value = Some val\<rparr>],
                               f_size := f_size m + 1\<rparr>,
                             (hash + d) mod 2 ^ n, True)))"
    (is "?UPD ft i \<or> ?NEW ft i")
  using L1 L2 L3
proof (induction "2 ^ n - i" arbitrary: i ft)
  case 0
  then have "2 ^ n \<le> i" by simp
  with E "0.prems"(1) show ?case by (meson less_le_trans)
next
  case (Suc x)
  then have lt: "i < 2 ^ n" by simp
  let ?t = "f_table m"
  let ?pos = "(hash + i) mod 2 ^ n"
  have pos: "probe (2 ^ n) (hash AND size_t_dec (2 ^ n)) i = ?pos"
    by (simp add: probe_home)
  have posl: "?pos < 2 ^ n" by simp
  note unfold = flat_insert_loop.simps [of m key val hash "hash AND size_t_dec (2 ^ n)" ft i]
  consider (empty) "flat_is_empty (?t ! ?pos)"
    | (tomb1) "\<not> flat_is_empty (?t ! ?pos)" "flat_is_tombstone (?t ! ?pos)" "ft = 2 ^ n"
    | (match) "\<not> flat_is_empty (?t ! ?pos)" "\<not> flat_is_tombstone (?t ! ?pos)"
        "fs_hash (?t ! ?pos) = hash" "fs_key (?t ! ?pos) = Some key"
    | (skip) "\<not> flat_is_empty (?t ! ?pos)" "\<not> (flat_is_tombstone (?t ! ?pos) \<and> ft = 2 ^ n)"
        "\<not> (\<not> flat_is_tombstone (?t ! ?pos) \<and> fs_hash (?t ! ?pos) = hash \<and> fs_key (?t ! ?pos) = Some key)"
    by blast
  then show ?case
  proof cases
    case empty
    show ?thesis
    proof (cases "ft = 2 ^ n")
      case True
      have "flat_insert_loop m key val hash (hash AND size_t_dec (2 ^ n)) ft i
              = Inr (m\<lparr>f_tombstone_count := f_tombstone_count m,
                       f_table := ?t[?pos := \<lparr>fs_hash = hash, fs_key = Some key, fs_value = Some val\<rparr>],
                       f_size := f_size m + 1\<rparr>, ?pos, True)"
        using lt empty True by (subst unfold) (simp add: cap len pos Let_def)
      moreover have "\<not> flat_is_tombstone (?t ! ?pos)" "\<not> flat_occupied (?t ! ?pos)"
        using empty flat_states_exclusive by blast+
      ultimately have "\<exists>d\<le>i. \<not> flat_occupied (?t ! ((hash + d) mod 2 ^ n))
                  \<and> flat_insert_loop m key val hash (hash AND size_t_dec (2 ^ n)) ft i
                      = Inr (m\<lparr>f_tombstone_count :=
                                 (if flat_is_tombstone (?t ! ((hash + d) mod 2 ^ n))
                                  then size_t_dec (f_tombstone_count m) else f_tombstone_count m),
                               f_table := ?t[(hash + d) mod 2 ^ n :=
                                 \<lparr>fs_hash = hash, fs_key = Some key, fs_value = Some val\<rparr>],
                               f_size := f_size m + 1\<rparr>,
                             (hash + d) mod 2 ^ n, True)"
        by (intro exI [of _ i]) simp
      with lt empty Suc.prems(1,2) have "?NEW ft i" by blast
      then show ?thesis ..
    next
      case False
      with Suc.prems(3) obtain j0 where j0: "j0 < i" "ft = (hash + j0) mod 2 ^ n"
        "flat_is_tombstone (?t ! ft)" by blast
      have "flat_insert_loop m key val hash (hash AND size_t_dec (2 ^ n)) ft i
              = Inr (m\<lparr>f_tombstone_count := size_t_dec (f_tombstone_count m),
                       f_table := ?t[ft := \<lparr>fs_hash = hash, fs_key = Some key, fs_value = Some val\<rparr>],
                       f_size := f_size m + 1\<rparr>, ft, True)"
        using lt empty False by (subst unfold) (simp add: cap len pos Let_def)
      moreover have "\<not> flat_occupied (?t ! ft)"
        using j0(3) flat_states_exclusive by blast
      ultimately have "\<exists>d\<le>i. \<not> flat_occupied (?t ! ((hash + d) mod 2 ^ n))
                  \<and> flat_insert_loop m key val hash (hash AND size_t_dec (2 ^ n)) ft i
                      = Inr (m\<lparr>f_tombstone_count :=
                                 (if flat_is_tombstone (?t ! ((hash + d) mod 2 ^ n))
                                  then size_t_dec (f_tombstone_count m) else f_tombstone_count m),
                               f_table := ?t[(hash + d) mod 2 ^ n :=
                                 \<lparr>fs_hash = hash, fs_key = Some key, fs_value = Some val\<rparr>],
                               f_size := f_size m + 1\<rparr>,
                             (hash + d) mod 2 ^ n, True)"
        using j0 by (intro exI [of _ j0]) simp
      with lt empty Suc.prems(1,2) have "?NEW ft i" by blast
      then show ?thesis ..
    qed
  next
    case tomb1
    have no: "\<not> flat_occupied (?t ! ?pos)" using tomb1(2) flat_states_exclusive by blast
    have step: "flat_insert_loop m key val hash (hash AND size_t_dec (2 ^ n)) ft i
            = flat_insert_loop m key val hash (hash AND size_t_dec (2 ^ n)) ?pos (i + 1)"
      using lt tomb1 by (subst unfold) (simp add: cap len pos Let_def)
    have A: "\<forall>j<i + 1. \<not> flat_is_empty (?t ! ((hash + j) mod 2 ^ n))"
      using Suc.prems(1) tomb1(1) by (auto simp: less_Suc_eq)
    have B: "\<forall>j<i + 1. flat_occupied (?t ! ((hash + j) mod 2 ^ n)) \<longrightarrow>
        \<not> (fs_hash (?t ! ((hash + j) mod 2 ^ n)) = hash \<and> fs_key (?t ! ((hash + j) mod 2 ^ n)) = Some key)"
      using Suc.prems(2) no by (auto simp: less_Suc_eq)
    have C: "?pos = 2 ^ n \<or> (\<exists>j0<i + 1. ?pos = (hash + j0) mod 2 ^ n \<and> flat_is_tombstone (?t ! ?pos))"
      using tomb1(2) by auto
    have "x = 2 ^ n - (i + 1)" using Suc.hyps(2) by simp
    from Suc.hyps(1) [OF this A B C] show ?thesis unfolding step .
  next
    case match
    have "flat_insert_loop m key val hash (hash AND size_t_dec (2 ^ n)) ft i
            = Inr (m\<lparr>f_table := ?t[?pos := (?t ! ?pos)\<lparr>fs_value := Some val\<rparr>]\<rparr>, ?pos, False)"
      using lt match by (subst unfold) (simp add: cap len pos Let_def)
    moreover have "flat_occupied (?t ! ?pos)" using match by (simp add: flat_occupied_def)
    ultimately have "?UPD ft i" using match posl by (intro exI [of _ ?pos]) simp
    then show ?thesis ..
  next
    case skip
    have step: "flat_insert_loop m key val hash (hash AND size_t_dec (2 ^ n)) ft i
            = flat_insert_loop m key val hash (hash AND size_t_dec (2 ^ n)) ft (i + 1)"
      using lt skip by (subst unfold) (auto simp add: cap len pos Let_def)
    have A: "\<forall>j<i + 1. \<not> flat_is_empty (?t ! ((hash + j) mod 2 ^ n))"
      using Suc.prems(1) skip(1) by (auto simp: less_Suc_eq)
    have B: "\<forall>j<i + 1. flat_occupied (?t ! ((hash + j) mod 2 ^ n)) \<longrightarrow>
        \<not> (fs_hash (?t ! ((hash + j) mod 2 ^ n)) = hash \<and> fs_key (?t ! ((hash + j) mod 2 ^ n)) = Some key)"
      using Suc.prems(2) skip(3) by (auto simp: less_Suc_eq flat_occupied_def)
    have C: "ft = 2 ^ n \<or> (\<exists>j0<i + 1. ft = (hash + j0) mod 2 ^ n \<and> flat_is_tombstone (?t ! ft))"
      using Suc.prems(3) by (auto simp: less_Suc_eq)
    have "x = 2 ^ n - (i + 1)" using Suc.hyps(2) by simp
    from Suc.hyps(1) [OF this A B C] show ?thesis unfolding step .
  qed
qed


text \<open>\<open>insert_internal\<close> stores the pair in the first free slot of the probe sequence.\<close>

lemma flat_insert_internal_loop_result:
  assumes cap: "f_capacity m = 2 ^ n" and len: "length (f_table m) = 2 ^ n"
    and E: "\<exists>e<2 ^ n. \<not> flat_occupied (f_table m ! ((hash + e) mod 2 ^ n))"
    and L1: "\<forall>j<i. flat_occupied (f_table m ! ((hash + j) mod 2 ^ n))"
  shows "\<exists>d<2 ^ n. \<not> flat_occupied (f_table m ! ((hash + d) mod 2 ^ n))
           \<and> (\<forall>j<d. flat_occupied (f_table m ! ((hash + j) mod 2 ^ n)))
           \<and> flat_insert_internal_loop m hash key val (hash AND size_t_dec (2 ^ n)) i
               = Inr (m\<lparr>f_tombstone_count :=
                          (if flat_is_tombstone (f_table m ! ((hash + d) mod 2 ^ n))
                           then size_t_dec (f_tombstone_count m) else f_tombstone_count m),
                        f_table := (f_table m)[(hash + d) mod 2 ^ n :=
                          \<lparr>fs_hash = hash, fs_key = key, fs_value = val\<rparr>]\<rparr>)"
  using L1
proof (induction "2 ^ n - i" arbitrary: i)
  case 0
  then have "2 ^ n \<le> i" by simp
  with E "0.prems" show ?case by (meson less_le_trans)
next
  case (Suc x)
  then have lt: "i < 2 ^ n" by simp
  let ?t = "f_table m"
  let ?pos = "(hash + i) mod 2 ^ n"
  have pos: "probe (2 ^ n) (hash AND size_t_dec (2 ^ n)) i = ?pos"
    by (simp add: probe_home)
  note unfold = flat_insert_internal_loop.simps [of m hash key val "hash AND size_t_dec (2 ^ n)" i]
  show ?case
  proof (cases "flat_occupied (?t ! ?pos)")
    case False
    then have "flat_insert_internal_loop m hash key val (hash AND size_t_dec (2 ^ n)) i
               = Inr (m\<lparr>f_tombstone_count :=
                          (if flat_is_tombstone (?t ! ?pos)
                           then size_t_dec (f_tombstone_count m) else f_tombstone_count m),
                        f_table := ?t[?pos := \<lparr>fs_hash = hash, fs_key = key, fs_value = val\<rparr>]\<rparr>)"
      using lt by (subst unfold) (auto simp add: cap len pos Let_def flat_occupied_def)
    with False lt Suc.prems show ?thesis by blast
  next
    case True
    then have step: "flat_insert_internal_loop m hash key val (hash AND size_t_dec (2 ^ n)) i
        = flat_insert_internal_loop m hash key val (hash AND size_t_dec (2 ^ n)) (i + 1)"
      using lt by (subst unfold) (auto simp add: cap len pos Let_def flat_occupied_def)
    have A: "\<forall>j<i + 1. flat_occupied (?t ! ((hash + j) mod 2 ^ n))"
      using Suc.prems True by (auto simp: less_Suc_eq)
    have "x = 2 ^ n - (i + 1)" using Suc.hyps(2) by simp
    from Suc.hyps(1) [OF this A] show ?thesis unfolding step .
  qed
qed

lemma flat_keys_distinct_Cons:
  assumes "flat_keys_distinct (s # xs)"
  shows "flat_keys_distinct xs"
    and "flat_occupied s \<Longrightarrow> \<forall>s'\<in>set xs. flat_occupied s' \<longrightarrow> fs_key s' \<noteq> fs_key s"
proof -
  show "flat_keys_distinct xs"
    unfolding flat_keys_distinct_def
  proof (intro allI impI)
    fix p q assume "p < length xs" "q < length xs" "flat_occupied (xs ! p)" "flat_occupied (xs ! q)"
      "fs_key (xs ! p) = fs_key (xs ! q)"
    with assms have "Suc p = Suc q"
      unfolding flat_keys_distinct_def by (metis length_Cons nth_Cons_Suc Suc_less_eq)
    then show "p = q" by simp
  qed
  show "\<forall>s'\<in>set xs. flat_occupied s' \<longrightarrow> fs_key s' \<noteq> fs_key s" if "flat_occupied s"
  proof (intro ballI impI notI)
    fix s' assume s': "s' \<in> set xs" "flat_occupied s'" "fs_key s' = fs_key s"
    then obtain q where q: "q < length xs" "xs ! q = s'" by (metis in_set_conv_nth)
    have "Suc q < length (s # xs)" "0 < length (s # xs)" using q by simp_all
    moreover have "flat_occupied ((s # xs) ! Suc q)" "flat_occupied ((s # xs) ! 0)"
      "fs_key ((s # xs) ! Suc q) = fs_key ((s # xs) ! 0)"
      using q s' that by simp_all
    ultimately have "Suc q = 0"
      using assms unfolding flat_keys_distinct_def by blast
    then show False by simp
  qed
qed

lemma flat_contents_Cons:
  "flat_contents (s # xs) =
     {(k, v). flat_occupied s \<and> fs_key s = Some k \<and> fs_value s = Some v} \<union> flat_contents xs"
  unfolding flat_contents_def by auto

lemma flat_contents_replicate: "flat_contents (replicate c flat_Slot) = {}"
  unfolding flat_contents_def
  by (auto simp: flat_Slot_def flat_occupied_iff)

lemma flat_table_ok_replicate: "flat_table_ok hf (replicate c flat_Slot)"
  unfolding flat_table_ok_def flat_slots_ok_def flat_keys_distinct_def flat_probe_ok_def
  by (auto simp: flat_Slot_def flat_occupied_iff)

lemma flat_filter_replicate:
  "filter flat_occupied (replicate c flat_Slot) = []"
  "filter flat_is_tombstone (replicate c flat_Slot) = []"
  by (simp_all add: flat_Slot_def flat_occupied_iff flat_is_tombstone_def TOMBSTONE_HASH_def)

lemma flat_rehash_loop_ok:
  assumes cap: "f_capacity m = 2 ^ n" and len: "length (f_table m) = 2 ^ n"
    and ok: "flat_table_ok hf (f_table m)"
    and notomb: "filter flat_is_tombstone (f_table m) = []"
    and xs_ok: "flat_slots_ok hf xs" and xs_kd: "flat_keys_distinct xs"
    and disj: "\<forall>s\<in>set xs. flat_occupied s \<longrightarrow>
         (\<forall>q<2 ^ n. flat_occupied (f_table m ! q) \<longrightarrow> fs_key (f_table m ! q) \<noteq> fs_key s)"
    and room: "length (filter flat_occupied (f_table m)) + length (filter flat_occupied xs) \<le> 2 ^ n"
  shows "\<exists>m'. flat_rehash_loop xs m = Inr m' \<and> f_capacity m' = 2 ^ n \<and> length (f_table m') = 2 ^ n
           \<and> f_size m' = f_size m \<and> f_tombstone_count m' = f_tombstone_count m
           \<and> flat_table_ok hf (f_table m') \<and> filter flat_is_tombstone (f_table m') = []
           \<and> flat_contents (f_table m') = flat_contents (f_table m) \<union> flat_contents xs
           \<and> length (filter flat_occupied (f_table m'))
               = length (filter flat_occupied (f_table m)) + length (filter flat_occupied xs)"
  using assms
proof (induction xs arbitrary: m)
  case Nil
  then show ?case by (simp add: flat_contents_def)
next
  case (Cons s xs)
  let ?t = "f_table m"
  from Cons.prems(5) have xs_ok: "flat_slots_ok hf xs" by (simp add: flat_slots_ok_def)
  from Cons.prems(6) have xs_kd: "flat_keys_distinct xs" by (rule flat_keys_distinct_Cons)
  show ?case
  proof (cases "flat_occupied s")
    case False
    have disj: "\<forall>s\<in>set xs. flat_occupied s \<longrightarrow>
         (\<forall>q<2 ^ n. flat_occupied (?t ! q) \<longrightarrow> fs_key (?t ! q) \<noteq> fs_key s)"
      using Cons.prems(7) by simp
    have room: "length (filter flat_occupied ?t) + length (filter flat_occupied xs) \<le> 2 ^ n"
      using Cons.prems(8) False by simp
    have step: "flat_rehash_loop (s # xs) m = flat_rehash_loop xs m"
      using False by (auto simp add: flat_occupied_def)
    have c: "flat_contents (s # xs) = flat_contents xs"
      using False by (simp add: flat_contents_Cons)
    have f: "filter flat_occupied (s # xs) = filter flat_occupied xs"
      using False by simp
    from Cons.IH [OF Cons.prems(1-4) xs_ok xs_kd disj room]
    show ?thesis unfolding step c f .
  next
    case True
    with Cons.prems(5) obtain k v where kv: "fs_key s = Some k" "fs_value s = Some v"
      "fs_hash s = make_hash (hf k)" unfolding flat_slots_ok_def by auto
    let ?h = "make_hash (hf k)"
    have occ_lt: "length (filter flat_occupied ?t) < 2 ^ n"
      using Cons.prems(8) True by simp
    with Cons.prems(2,4) have "\<exists>q<length ?t. flat_is_empty (?t ! q)"
      by (intro flat_empty_slot_exists) simp
    then obtain q where q: "q < 2 ^ n" "flat_is_empty (?t ! q)" using Cons.prems(2) by auto
    from probe_surj [OF q(1), of ?h] obtain e where e: "e < 2 ^ n" "(?h + e) mod 2 ^ n = q" by blast
    with q(2) have E: "\<exists>e<2 ^ n. \<not> flat_occupied (?t ! ((?h + e) mod 2 ^ n))"
      using flat_states_exclusive(2) by blast
    from flat_insert_internal_loop_result [OF Cons.prems(1,2) E, where i = 0 and key = "Some k" and val = "Some v"]
    obtain d where d: "d < 2 ^ n" "\<not> flat_occupied (?t ! ((?h + d) mod 2 ^ n))"
      "\<forall>j<d. flat_occupied (?t ! ((?h + j) mod 2 ^ n))"
      "flat_insert_internal_loop m ?h (Some k) (Some v) (?h AND size_t_dec (2 ^ n)) 0
               = Inr (m\<lparr>f_tombstone_count :=
                          (if flat_is_tombstone (?t ! ((?h + d) mod 2 ^ n))
                           then size_t_dec (f_tombstone_count m) else f_tombstone_count m),
                        f_table := ?t[(?h + d) mod 2 ^ n :=
                          \<lparr>fs_hash = ?h, fs_key = Some k, fs_value = Some v\<rparr>]\<rparr>)"
      by auto
    let ?ip = "(?h + d) mod 2 ^ n"
    let ?new = "\<lparr>fs_hash = ?h, fs_key = Some k, fs_value = Some v\<rparr> :: ('a, 'b) flat_slot"
    have ipl: "?ip < length ?t" using Cons.prems(2) by simp
    have nt: "\<not> flat_is_tombstone (?t ! ?ip)"
      using Cons.prems(4) ipl by (metis filter_empty_conv nth_mem)
    define m1 where "m1 = m\<lparr>f_table := ?t[?ip := ?new]\<rparr>"
    have ii: "flat_insert_internal m (fs_hash s) (fs_key s) (fs_value s) = Inr m1"
      unfolding flat_insert_internal_def kv Cons.prems(1) d(4) m1_def using nt by simp
    have path: "\<forall>j<d. \<not> flat_is_empty (?t ! ((?h + j) mod length ?t))"
      using d(3) flat_states_exclusive(2) unfolding Cons.prems(2) by blast
    have fresh: "\<forall>q<length ?t. flat_occupied (?t ! q) \<longrightarrow> fs_key (?t ! q) \<noteq> Some k"
      using Cons.prems(7) True kv(1) unfolding Cons.prems(2) by simp
    have ok1: "flat_table_ok hf (f_table m1)"
      unfolding m1_def using flat_table_ok_place [OF Cons.prems(3) _ ipl d(2) _ _ path fresh, where v = v]
        d(1) Cons.prems(2) by simp
    have newocc: "flat_occupied ?new" by (rule flat_new_slot_occupied)
    have newnt: "\<not> flat_is_tombstone ?new" using newocc flat_states_exclusive(3) by blast
    have nt1: "filter flat_is_tombstone (f_table m1) = []"
    proof -
      have "length (filter flat_is_tombstone (?t[?ip := ?new])) = length (filter flat_is_tombstone ?t)"
        using length_filter_update [OF ipl, where P = flat_is_tombstone and x = ?new] nt newnt by simp
      then show ?thesis using Cons.prems(4) by (simp add: m1_def)
    qed
    have occ1: "length (filter flat_occupied (f_table m1)) = length (filter flat_occupied ?t) + 1"
      using length_filter_update [OF ipl, where P = flat_occupied and x = ?new] d(2) newocc by (simp add: m1_def)
    have cont1: "flat_contents (f_table m1) = insert (k, v) (flat_contents ?t)"
      unfolding m1_def using flat_contents_place [OF ipl d(2) newocc] by simp
    have disj1: "\<forall>s'\<in>set xs. flat_occupied s' \<longrightarrow>
         (\<forall>q<2 ^ n. flat_occupied (f_table m1 ! q) \<longrightarrow> fs_key (f_table m1 ! q) \<noteq> fs_key s')"
    proof (intro ballI impI allI)
      fix s' q assume s': "s' \<in> set xs" "flat_occupied s'" and q: "q < 2 ^ n" "flat_occupied (f_table m1 ! q)"
      show "fs_key (f_table m1 ! q) \<noteq> fs_key s'"
      proof (cases "q = ?ip")
        case True
        then have "fs_key (f_table m1 ! q) = Some k" using ipl by (simp add: m1_def)
        moreover have "fs_key s' \<noteq> fs_key s"
          using flat_keys_distinct_Cons(2) [OF Cons.prems(6) \<open>flat_occupied s\<close>] s' by blast
        ultimately show ?thesis using kv(1) by simp
      next
        case False
        then have "f_table m1 ! q = ?t ! q" by (simp add: m1_def)
        with Cons.prems(7) s' q show ?thesis by simp
      qed
    qed
    have room1: "length (filter flat_occupied (f_table m1)) + length (filter flat_occupied xs) \<le> 2 ^ n"
      using Cons.prems(8) True occ1 by simp
    have cap1: "f_capacity m1 = 2 ^ n" "length (f_table m1) = 2 ^ n"
      using Cons.prems(1,2) by (simp_all add: m1_def)
    from Cons.IH [OF cap1 ok1 nt1 xs_ok xs_kd disj1 room1]
    obtain m' where m': "flat_rehash_loop xs m1 = Inr m'" "f_capacity m' = 2 ^ n"
      "length (f_table m') = 2 ^ n" "f_size m' = f_size m1" "f_tombstone_count m' = f_tombstone_count m1"
      "flat_table_ok hf (f_table m')" "filter flat_is_tombstone (f_table m') = []"
      "flat_contents (f_table m') = flat_contents (f_table m1) \<union> flat_contents xs"
      "length (filter flat_occupied (f_table m'))
         = length (filter flat_occupied (f_table m1)) + length (filter flat_occupied xs)"
      by blast
    have "flat_rehash_loop (s # xs) m = Inr m'"
      using True ii m'(1) by (simp add: flat_occupied_def)
    moreover have "flat_contents (f_table m') = flat_contents ?t \<union> flat_contents (s # xs)"
      unfolding m'(8) cont1 flat_contents_Cons using True kv by auto
    moreover have "length (filter flat_occupied (f_table m'))
         = length (filter flat_occupied ?t) + length (filter flat_occupied (s # xs))"
      unfolding m'(9) occ1 using True by simp
    moreover have "f_size m' = f_size m" "f_tombstone_count m' = f_tombstone_count m"
      using m'(4,5) by (simp_all add: m1_def)
    ultimately show ?thesis using m'(2,3,6,7) by blast
  qed
qed


lemma flat_rehash_ok:
  assumes ok: "flat_table_ok hf (f_table m)"
    and room: "length (filter flat_occupied (f_table m)) \<le> 2 ^ n"
  shows "\<exists>m'. flat_rehash m (2 ^ n) = Inr m' \<and> f_capacity m' = 2 ^ n \<and> length (f_table m') = 2 ^ n
           \<and> f_size m' = f_size m \<and> f_tombstone_count m' = 0
           \<and> flat_table_ok hf (f_table m') \<and> filter flat_is_tombstone (f_table m') = []
           \<and> flat_contents (f_table m') = flat_contents (f_table m)
           \<and> length (filter flat_occupied (f_table m')) = length (filter flat_occupied (f_table m))"
proof -
  define m0 where "m0 = m\<lparr>f_table := replicate (2 ^ n) flat_Slot, f_capacity := 2 ^ n,
    f_tombstone_count := 0\<rparr>"
  have a: "f_capacity m0 = 2 ^ n" "length (f_table m0) = 2 ^ n" by (simp_all add: m0_def)
  have b: "flat_table_ok hf (f_table m0)" by (simp add: m0_def flat_table_ok_replicate)
  have c: "filter flat_is_tombstone (f_table m0) = []" by (simp add: m0_def flat_filter_replicate)
  from ok have d: "flat_slots_ok hf (f_table m)" "flat_keys_distinct (f_table m)"
    by (simp_all add: flat_table_ok_def)
  have e: "\<forall>s\<in>set (f_table m). flat_occupied s \<longrightarrow>
         (\<forall>q<2 ^ n. flat_occupied (f_table m0 ! q) \<longrightarrow> fs_key (f_table m0 ! q) \<noteq> fs_key s)"
    by (simp add: m0_def flat_Slot_def flat_occupied_iff)
  have f: "length (filter flat_occupied (f_table m0)) + length (filter flat_occupied (f_table m)) \<le> 2 ^ n"
    using room by (simp add: m0_def flat_filter_replicate)
  from flat_rehash_loop_ok [OF a b c d e f]
  show ?thesis
    unfolding flat_rehash_def m0_def [symmetric]
    by (simp add: m0_def flat_contents_replicate flat_filter_replicate)
qed

lemma flat_rehash_zero:
  assumes "f_table m = []"
  shows "flat_rehash m 0 = Inr (m\<lparr>f_table := [], f_capacity := 0, f_tombstone_count := 0\<rparr>)"
  by (simp add: flat_rehash_def assms)


text \<open>The probe loop of \<open>insert\<close> on a well-formed map with room for one more pair.\<close>

lemma flat_insert_loop_spec:
  assumes wf: "flat_wf hf m" and cap: "f_capacity m = 2 ^ n"
    and room: "f_size m + f_tombstone_count m < 2 ^ n"
  shows "\<exists>m' p ins.
     flat_insert_loop m k v (make_hash (hf k)) (make_hash (hf k) AND size_t_dec (2 ^ n)) (2 ^ n) 0
       = Inr (m', p, ins)
     \<and> flat_wf hf m' \<and> f_capacity m' = 2 ^ n
     \<and> flat_contents (f_table m') = insert (k, v) {(a, b) \<in> flat_contents (f_table m). a \<noteq> k}
     \<and> (ins \<longleftrightarrow> k \<notin> fst ` flat_contents (f_table m))
     \<and> f_size m' = f_size m + (if ins then 1 else 0)
     \<and> f_tombstone_count m' \<le> f_tombstone_count m
     \<and> p < 2 ^ n \<and> flat_occupied (f_table m' ! p) \<and> fs_key (f_table m' ! p) = Some k
     \<and> fs_value (f_table m' ! p) = Some v"
proof -
  let ?t = "f_table m" and ?h = "make_hash (hf k)"
  from wf have len: "length ?t = 2 ^ n" and sz: "f_size m = length (filter flat_occupied ?t)"
    and tc: "f_tombstone_count m = length (filter flat_is_tombstone ?t)"
    and ok: "flat_table_ok hf ?t"
    by (simp_all add: flat_wf_def cap)
  from ok have sl: "flat_slots_ok hf ?t" and kd: "flat_keys_distinct ?t" and po: "flat_probe_ok ?t"
    by (simp_all add: flat_table_ok_def)
  from room sz tc len have "\<exists>q<length ?t. flat_is_empty (?t ! q)"
    by (intro flat_empty_slot_exists) simp
  then obtain q0 where q0: "q0 < 2 ^ n" "flat_is_empty (?t ! q0)" using len by auto
  from probe_surj [OF q0(1), of ?h] q0(2)
  have E: "\<exists>e<2 ^ n. flat_is_empty (?t ! ((?h + e) mod 2 ^ n))" by auto
  have L1: "\<forall>j<0::nat. \<not> flat_is_empty (?t ! ((?h + j) mod 2 ^ n))" by simp
  have L2: "\<forall>j<0::nat. flat_occupied (?t ! ((?h + j) mod 2 ^ n)) \<longrightarrow>
        \<not> (fs_hash (?t ! ((?h + j) mod 2 ^ n)) = ?h \<and> fs_key (?t ! ((?h + j) mod 2 ^ n)) = Some k)"
    by simp
  have L3: "(2::nat) ^ n = 2 ^ n \<or> (\<exists>j0<0::nat. (2::nat) ^ n = (?h + j0) mod 2 ^ n \<and> flat_is_tombstone (?t ! (2 ^ n)))"
    by simp
  from flat_insert_loop_result [OF cap len E L1 L2 L3, where val = v]
  consider (upd) q where "q < 2 ^ n" "flat_occupied (?t ! q)" "fs_hash (?t ! q) = ?h"
      "fs_key (?t ! q) = Some k"
      "flat_insert_loop m k v ?h (?h AND size_t_dec (2 ^ n)) (2 ^ n) 0
         = Inr (m\<lparr>f_table := ?t[q := (?t ! q)\<lparr>fs_value := Some v\<rparr>]\<rparr>, q, False)"
    | (new) e d where "e < 2 ^ n" "flat_is_empty (?t ! ((?h + e) mod 2 ^ n))"
      "\<forall>j<e. \<not> flat_is_empty (?t ! ((?h + j) mod 2 ^ n))"
      "\<forall>j<e. flat_occupied (?t ! ((?h + j) mod 2 ^ n)) \<longrightarrow>
          \<not> (fs_hash (?t ! ((?h + j) mod 2 ^ n)) = ?h \<and> fs_key (?t ! ((?h + j) mod 2 ^ n)) = Some k)"
      "d \<le> e" "\<not> flat_occupied (?t ! ((?h + d) mod 2 ^ n))"
      "flat_insert_loop m k v ?h (?h AND size_t_dec (2 ^ n)) (2 ^ n) 0
         = Inr (m\<lparr>f_tombstone_count :=
                    (if flat_is_tombstone (?t ! ((?h + d) mod 2 ^ n))
                     then size_t_dec (f_tombstone_count m) else f_tombstone_count m),
                  f_table := ?t[(?h + d) mod 2 ^ n :=
                    \<lparr>fs_hash = ?h, fs_key = Some k, fs_value = Some v\<rparr>],
                  f_size := f_size m + 1\<rparr>,
                (?h + d) mod 2 ^ n, True)"
    by blast
  then show ?thesis
  proof cases
    case upd
    let ?t' = "?t[q := (?t ! q)\<lparr>fs_value := Some v\<rparr>]"
    let ?m' = "m\<lparr>f_table := ?t'\<rparr>"
    have ql: "q < length ?t" using upd(1) len by simp
    have ok': "flat_table_ok hf ?t'" using flat_table_ok_set_value [OF ok ql] .
    have o': "flat_occupied ((?t ! q)\<lparr>fs_value := Some v\<rparr>)" using upd(2) by (simp add: flat_occupied_iff)
    have t': "\<not> flat_is_tombstone ((?t ! q)\<lparr>fs_value := Some v\<rparr>)" "\<not> flat_is_tombstone (?t ! q)"
      using o' upd(2) flat_states_exclusive(3) by blast+
    have c1: "length (filter flat_occupied ?t') = length (filter flat_occupied ?t)"
      using length_filter_update [OF ql, where P = flat_occupied and x = "(?t ! q)\<lparr>fs_value := Some v\<rparr>"]
        o' upd(2) by simp
    have c2: "length (filter flat_is_tombstone ?t') = length (filter flat_is_tombstone ?t)"
      using length_filter_update [OF ql, where P = flat_is_tombstone and x = "(?t ! q)\<lparr>fs_value := Some v\<rparr>"]
        t' by simp
    have wf': "flat_wf hf ?m'"
      unfolding flat_wf_def using len cap sz tc ok' c1 c2 by simp
    have cont: "flat_contents (f_table ?m') = insert (k, v) {(a, b) \<in> flat_contents ?t. a \<noteq> k}"
      using flat_contents_set_value [OF kd ql upd(2,4)] by simp
    from sl upd(2,4) ql obtain w where "fs_value (?t ! q) = Some w"
      unfolding flat_slots_ok_iff by blast
    with ql upd(2,4) have "(k, w) \<in> flat_contents ?t" unfolding flat_contents_iff by blast
    then have mem: "k \<in> fst ` flat_contents ?t" by force
    show ?thesis
      using upd(5) wf' cap cont mem upd(1,4) ql o'
      by (intro exI [of _ ?m'] exI [of _ q] exI [of _ False]) simp
  next
    case new
    let ?ip = "(?h + d) mod 2 ^ n"
    let ?new = "\<lparr>fs_hash = ?h, fs_key = Some k, fs_value = Some v\<rparr> :: ('a, 'b) flat_slot"
    let ?t' = "?t[?ip := ?new]"
    let ?m' = "m\<lparr>f_tombstone_count :=
                    (if flat_is_tombstone (?t ! ?ip)
                     then size_t_dec (f_tombstone_count m) else f_tombstone_count m),
                  f_table := ?t', f_size := f_size m + 1\<rparr>"
    have ipl: "?ip < length ?t" using len by simp
    have fresh: "\<forall>q<length ?t. flat_occupied (?t ! q) \<longrightarrow> fs_key (?t ! q) \<noteq> Some k"
    proof (intro allI impI notI)
      fix q assume q: "q < length ?t" "flat_occupied (?t ! q)" "fs_key (?t ! q) = Some k"
      with sl have hq: "fs_hash (?t ! q) = ?h" unfolding flat_slots_ok_iff by fastforce
      from po q(1,2) obtain d' where d': "d' < 2 ^ n" "q = (?h + d') mod 2 ^ n"
        "\<forall>j<d'. \<not> flat_is_empty (?t ! ((?h + j) mod 2 ^ n))"
        unfolding flat_probe_ok_def hq [symmetric] len by (metis hq)
      consider "d' < e" | "d' = e" | "e < d'" by linarith
      then show False
      proof cases
        case 1
        with new(4) q(2,3) hq d'(2) show False by blast
      next
        case 2
        with new(2) q(2) d'(2) flat_states_exclusive(2) show False by blast
      next
        case 3
        with d'(3) new(2) show False by blast
      qed
    qed
    have path: "\<forall>j<d. \<not> flat_is_empty (?t ! ((?h + j) mod length ?t))"
      using new(3,5) len by simp
    have dl: "d < length ?t" using new(1,5) len by simp
    have posl: "0 < length ?t" using len by simp
    have ipeq: "?ip = (?h + d) mod length ?t" using len by simp
    have ok': "flat_table_ok hf ?t'"
      by (rule flat_table_ok_place [OF ok posl ipl new(6) dl ipeq path fresh])
    have newocc: "flat_occupied ?new" by (rule flat_new_slot_occupied)
    have newnt: "\<not> flat_is_tombstone ?new" using newocc flat_states_exclusive(3) by blast
    have c1: "length (filter flat_occupied ?t') = length (filter flat_occupied ?t) + 1"
      using length_filter_update [OF ipl, where P = flat_occupied and x = ?new] new(6) newocc by simp
    have c2: "length (filter flat_is_tombstone ?t') + (if flat_is_tombstone (?t ! ?ip) then 1 else 0)
         = length (filter flat_is_tombstone ?t)"
      using length_filter_update [OF ipl, where P = flat_is_tombstone and x = ?new] newnt by simp
    have c3: "f_tombstone_count ?m' = length (filter flat_is_tombstone ?t')"
      using c2 tc by (auto simp: size_t_dec_def)
    have wf': "flat_wf hf ?m'"
      unfolding flat_wf_def using len cap sz ok' c1 c3 by simp
    have cont0: "flat_contents ?t' = insert (k, v) (flat_contents ?t)"
      using flat_contents_place [OF ipl new(6) newocc] .
    have nomem: "k \<notin> fst ` flat_contents ?t"
    proof
      assume "k \<in> fst ` flat_contents ?t"
      then obtain w where "(k, w) \<in> flat_contents ?t" by auto
      with fresh show False unfolding flat_contents_iff by blast
    qed
    then have "{(a, b) \<in> flat_contents ?t. a \<noteq> k} = flat_contents ?t" by force
    with cont0 have cont: "flat_contents (f_table ?m') = insert (k, v) {(a, b) \<in> flat_contents ?t. a \<noteq> k}"
      by simp
    have tcle: "f_tombstone_count ?m' \<le> f_tombstone_count m"
      using c2 c3 tc by simp
    show ?thesis
      using new(7) wf' cap cont nomem tcle ipl newocc len
      by (intro exI [of _ ?m'] exI [of _ ?ip] exI [of _ True]) simp
  qed
qed


lemma flat_inv_cases:
  assumes "flat_inv hf m"
  obtains (zero) "f_capacity m = 0" "f_table m = []" "f_size m = 0" "f_tombstone_count m = 0"
  | (pow2) n where "f_capacity m = 2 ^ n" "length (f_table m) = 2 ^ n"
proof -
  from assms have wf: "flat_wf hf m" and c: "f_capacity m = 0 \<or> (\<exists>n. f_capacity m = 2 ^ n)"
    by (simp_all add: flat_inv_def)
  from c show thesis
  proof
    assume z: "f_capacity m = 0"
    with wf have "f_table m = []" by (simp add: flat_wf_def)
    with wf z show thesis by (intro zero) (simp_all add: flat_wf_def)
  next
    assume "\<exists>n. f_capacity m = 2 ^ n"
    then obtain n where "f_capacity m = 2 ^ n" ..
    with wf show thesis by (intro pow2 [of n]) (simp_all add: flat_wf_def)
  qed
qed

lemma grow_load_bound:
  fixes s c :: nat
  assumes "4 * s \<le> 3 * c" "0 < c"
  shows "4 * (s + 1) \<le> 3 * (2 * c)"
  using assms by presburger

text \<open>\<open>insert\<close> on a map that satisfies the invariant and has a table.\<close>

lemma flat_insert_spec:
  assumes inv: "flat_inv hf m" and c: "f_capacity m \<noteq> 0"
  shows "\<exists>m' p ins. flat_insert hf m k v = Inr (m', p, ins) \<and> flat_inv hf m' \<and> f_capacity m' \<noteq> 0
     \<and> flat_contents (f_table m') = insert (k, v) {(a, b) \<in> flat_contents (f_table m). a \<noteq> k}
     \<and> (ins \<longleftrightarrow> k \<notin> fst ` flat_contents (f_table m))
     \<and> f_size m' = f_size m + (if ins then 1 else 0)
     \<and> f_capacity m' =
         (if 3 * f_capacity m < 4 * (f_size m + 1) \<or> f_capacity m < 4 * f_tombstone_count m
          then 2 * f_capacity m else f_capacity m)
     \<and> 4 * f_tombstone_count m' \<le> f_capacity m'
     \<and> p < f_capacity m' \<and> flat_occupied (f_table m' ! p) \<and> fs_key (f_table m' ! p) = Some k
     \<and> fs_value (f_table m' ! p) = Some v"
proof -
  from inv c obtain n where cap: "f_capacity m = 2 ^ n" and len: "length (f_table m) = 2 ^ n"
    by (cases rule: flat_inv_cases) simp_all
  from inv have wf: "flat_wf hf m" and load: "4 * f_size m \<le> 3 * f_capacity m"
    by (simp_all add: flat_inv_def)
  from wf have sz: "f_size m = length (filter flat_occupied (f_table m))"
    and ok: "flat_table_ok hf (f_table m)" by (simp_all add: flat_wf_def)
  define pre where "pre \<longleftrightarrow> 3 * f_capacity m < 4 * (f_size m + 1) \<or> f_capacity m < 4 * f_tombstone_count m"
  define check where "check = (if quotient_exceeds (f_size m + 1) (f_capacity m) MAX_LOAD_FACTOR
               \<or> quotient_exceeds (f_tombstone_count m) (f_capacity m) MAX_TOMBSTONE_RATIO
            then flat_rehash m (f_capacity m * 2) else Inr m)"
  have check_eq: "check = (if pre then flat_rehash m (2 ^ Suc n) else Inr m)"
    unfolding check_def pre_def load_exceeds_iff tombstones_exceed_iff cap by (simp add: mult.commute)
  have "\<exists>m1 n1. check = Inr m1 \<and> flat_wf hf m1 \<and> f_capacity m1 = 2 ^ n1
      \<and> flat_contents (f_table m1) = flat_contents (f_table m) \<and> f_size m1 = f_size m
      \<and> 4 * (f_size m1 + 1) \<le> 3 * 2 ^ n1 \<and> 4 * f_tombstone_count m1 \<le> 2 ^ n1
      \<and> (2::nat) ^ n1 = (if pre then 2 * f_capacity m else f_capacity m)"
  proof (cases pre)
    case True
    have "f_size m \<le> 2 ^ n" using load cap by simp
    then have room: "length (filter flat_occupied (f_table m)) \<le> 2 ^ Suc n" using sz by simp
    from flat_rehash_ok [OF ok room]
    obtain m1 where m1: "flat_rehash m (2 ^ Suc n) = Inr m1" "f_capacity m1 = 2 ^ Suc n"
      "length (f_table m1) = 2 ^ Suc n" "f_size m1 = f_size m" "f_tombstone_count m1 = 0"
      "flat_table_ok hf (f_table m1)" "filter flat_is_tombstone (f_table m1) = []"
      "flat_contents (f_table m1) = flat_contents (f_table m)"
      "length (filter flat_occupied (f_table m1)) = length (filter flat_occupied (f_table m))"
      by blast
    have wf1: "flat_wf hf m1" unfolding flat_wf_def using m1 sz by simp
    have "4 * (f_size m + 1) \<le> 3 * (2 * 2 ^ n)"
      using grow_load_bound [of "f_size m" "2 ^ n"] load cap by simp
    then have l1: "4 * (f_size m1 + 1) \<le> 3 * 2 ^ Suc n" using m1(4) by simp
    show ?thesis
      using True m1(1,2,4,5,8) wf1 l1 cap check_eq
      by (intro exI [of _ m1] exI [of _ "Suc n"]) simp
  next
    case False
    then have "4 * (f_size m + 1) \<le> 3 * 2 ^ n" "4 * f_tombstone_count m \<le> 2 ^ n"
      unfolding pre_def cap by simp_all
    with False wf cap check_eq show ?thesis
      by (intro exI [of _ m] exI [of _ n]) simp
  qed
  then obtain m1 n1 where m1: "check = Inr m1" "flat_wf hf m1" "f_capacity m1 = 2 ^ n1"
      "flat_contents (f_table m1) = flat_contents (f_table m)" "f_size m1 = f_size m"
      "4 * (f_size m1 + 1) \<le> 3 * 2 ^ n1" "4 * f_tombstone_count m1 \<le> 2 ^ n1"
      "(2::nat) ^ n1 = (if pre then 2 * f_capacity m else f_capacity m)"
    by blast
  have room: "f_size m1 + f_tombstone_count m1 < 2 ^ n1" using m1(6,7) by simp
  from flat_insert_loop_spec [OF m1(2,3) room, of k v]
  obtain m' p ins where r:
    "flat_insert_loop m1 k v (make_hash (hf k)) (make_hash (hf k) AND size_t_dec (2 ^ n1)) (2 ^ n1) 0
       = Inr (m', p, ins)"
    "flat_wf hf m'" "f_capacity m' = 2 ^ n1"
    "flat_contents (f_table m') = insert (k, v) {(a, b) \<in> flat_contents (f_table m1). a \<noteq> k}"
    "ins \<longleftrightarrow> k \<notin> fst ` flat_contents (f_table m1)"
    "f_size m' = f_size m1 + (if ins then 1 else 0)"
    "f_tombstone_count m' \<le> f_tombstone_count m1"
    "p < 2 ^ n1" "flat_occupied (f_table m' ! p)" "fs_key (f_table m' ! p) = Some k"
    "fs_value (f_table m' ! p) = Some v"
    by blast
  have res: "flat_insert hf m k v = Inr (m', p, ins)"
    unfolding flat_insert_def check_def [symmetric] m1(1) using r(1) m1(3) by (simp add: Let_def)
  have "4 * f_size m' \<le> 3 * f_capacity m'" using r(6,3) m1(6) by simp
  moreover have t: "4 * f_tombstone_count m' \<le> f_capacity m'" using r(7,3) m1(7) by simp
  ultimately have inv': "flat_inv hf m'"
    unfolding flat_inv_def using r(2,3) by auto
  have capne: "f_capacity m' \<noteq> 0" using r(3) by simp
  have capeq: "f_capacity m' =
         (if 3 * f_capacity m < 4 * (f_size m + 1) \<or> f_capacity m < 4 * f_tombstone_count m
          then 2 * f_capacity m else f_capacity m)"
    using r(3) m1(8) unfolding pre_def by simp
  have pl: "p < f_capacity m'" using r(3,8) by simp
  show ?thesis
    using res inv' capne r(4,5,6) capeq t pl r(9,10,11) unfolding m1(4,5)
    by (intro exI [of _ m'] exI [of _ p] exI [of _ ins]) blast
qed

lemma flat_insert_zero:
  assumes inv: "flat_inv hf m" and c: "f_capacity m = 0"
  shows "flat_insert hf m k v = Inl Table_full"
proof -
  from inv c have t: "f_table m = []" by (cases rule: flat_inv_cases) simp_all
  show ?thesis
    unfolding flat_insert_def
    by (simp add: c quotient_exceeds_def flat_rehash_zero [OF t] Let_def flat_insert_loop.simps)
qed

text \<open>\<open>find\<close>, \<open>contains\<close> and reading through the pointer that \<open>find\<close> returns.\<close>

lemma flat_find_present:
  assumes inv: "flat_inv hf m" and kw: "(k, w) \<in> flat_contents (f_table m)"
  shows "\<exists>p. flat_find hf m k = Inr (Some p) \<and> flat_deref m p = Some w
           \<and> p < f_capacity m \<and> flat_occupied (f_table m ! p) \<and> fs_key (f_table m ! p) = Some k"
proof -
  from kw obtain p where p: "p < length (f_table m)" "flat_occupied (f_table m ! p)"
    "fs_key (f_table m ! p) = Some k" "fs_value (f_table m ! p) = Some w"
    unfolding flat_contents_iff by blast
  from inv p(1) obtain n where cap: "f_capacity m = 2 ^ n" and len: "length (f_table m) = 2 ^ n"
    by (cases rule: flat_inv_cases) simp_all
  from inv have ok: "flat_table_ok hf (f_table m)" by (simp add: flat_inv_def flat_wf_def)
  have pn: "p < 2 ^ n" using p(1) len by simp
  from flat_find_slot_present [OF cap len ok pn p(2,3)]
  have "flat_find hf m k = Inr (Some p)"
    unfolding flat_find_def using pn cap by simp
  moreover have "flat_deref m p = Some w" using p(1,4) by (simp add: flat_deref_def)
  ultimately show ?thesis using p(2,3) pn cap by auto
qed

lemma flat_find_absent:
  assumes inv: "flat_inv hf m" and k: "k \<notin> fst ` flat_contents (f_table m)"
  shows "flat_find hf m k = Inr None"
proof (cases rule: flat_inv_cases [OF inv])
  case 1
  then show ?thesis
    unfolding flat_find_def by (simp add: flat_find_slot_zero)
next
  case (2 n)
  from inv have sl: "flat_slots_ok hf (f_table m)"
    by (simp add: flat_inv_def flat_wf_def flat_table_ok_def)
  have absent: "\<forall>q<2 ^ n. flat_occupied (f_table m ! q) \<longrightarrow> fs_key (f_table m ! q) \<noteq> Some k"
  proof (intro allI impI notI)
    fix q assume q: "q < 2 ^ n" "flat_occupied (f_table m ! q)" "fs_key (f_table m ! q) = Some k"
    with sl 2(2) obtain w where "fs_value (f_table m ! q) = Some w"
      unfolding flat_slots_ok_iff by fastforce
    with q 2(2) have "(k, w) \<in> flat_contents (f_table m)"
      unfolding flat_contents_iff by auto
    with k show False by force
  qed
  from flat_find_slot_absent [OF 2 absent]
  show ?thesis unfolding flat_find_def using 2(1) by simp
qed

lemma flat_contains_iff:
  assumes inv: "flat_inv hf m"
  shows "flat_contains hf m k = Inr (k \<in> fst ` flat_contents (f_table m))"
proof (cases "k \<in> fst ` flat_contents (f_table m)")
  case True
  then obtain w where "(k, w) \<in> flat_contents (f_table m)" by auto
  from flat_find_present [OF inv this] True show ?thesis
    unfolding flat_contains_def by auto
next
  case False
  from flat_find_absent [OF inv this] False show ?thesis
    unfolding flat_contains_def by simp
qed


lemma flat_erased_slot_tombstone:
  "flat_is_tombstone ((flat_destroy_slot s)\<lparr>fs_hash := TOMBSTONE_HASH\<rparr>)"
  by (simp add: flat_is_tombstone_def)

text \<open>\<open>erase\<close> on a map that satisfies the invariant.\<close>

lemma flat_erase_spec:
  assumes inv: "flat_inv hf m"
  shows "\<exists>m' b. flat_erase hf m k = Inr (m', b) \<and> flat_inv hf m'
     \<and> (b \<longleftrightarrow> k \<in> fst ` flat_contents (f_table m))
     \<and> (\<not> b \<longrightarrow> m' = m)
     \<and> flat_contents (f_table m') = {(a, b) \<in> flat_contents (f_table m). a \<noteq> k}
     \<and> f_size m' + (if b then 1 else 0) = f_size m
     \<and> f_capacity m' = f_capacity m
     \<and> (f_size m' = 0 \<or> 4 * f_tombstone_count m' \<le> f_capacity m')"
proof (cases "k \<in> fst ` flat_contents (f_table m)")
  case False
  from flat_find_absent [OF inv False]
  have fs: "flat_find_slot m k (make_hash (hf k)) = Inr (f_capacity m)"
    unfolding flat_find_def by (auto split: sum.splits if_splits)
  have "flat_erase hf m k = Inr (m, False)"
    unfolding flat_erase_def fs by simp
  moreover have "{(a, b) \<in> flat_contents (f_table m). a \<noteq> k} = flat_contents (f_table m)"
    using False by force
  moreover have "f_size m = 0 \<or> 4 * f_tombstone_count m \<le> f_capacity m"
    using inv by (simp add: flat_inv_def)
  ultimately show ?thesis using inv False
    by (intro exI [of _ m] exI [of _ False]) simp
next
  case True
  then obtain w where kw: "(k, w) \<in> flat_contents (f_table m)" by auto
  let ?t = "f_table m"
  from flat_find_present [OF inv kw] obtain p where p: "flat_find hf m k = Inr (Some p)"
    "p < f_capacity m" "flat_occupied (?t ! p)" "fs_key (?t ! p) = Some k"
    by blast
  from inv p(2) obtain n where cap: "f_capacity m = 2 ^ n" and len: "length ?t = 2 ^ n"
    by (cases rule: flat_inv_cases) simp_all
  from inv have wf: "flat_wf hf m" and load: "4 * f_size m \<le> 3 * f_capacity m"
    by (simp_all add: flat_inv_def)
  from wf have sz: "f_size m = length (filter flat_occupied ?t)"
    and tc: "f_tombstone_count m = length (filter flat_is_tombstone ?t)"
    and ok: "flat_table_ok hf ?t" by (simp_all add: flat_wf_def)
  from ok have kd: "flat_keys_distinct ?t" by (simp add: flat_table_ok_def)
  have fs: "flat_find_slot m k (make_hash (hf k)) = Inr p"
    using p(1) unfolding flat_find_def by (auto split: sum.splits if_splits)
  have pl: "p < length ?t" using p(2) cap len by simp
  let ?ts = "(flat_destroy_slot (?t ! p))\<lparr>fs_hash := TOMBSTONE_HASH\<rparr>"
  let ?t1 = "?t[p := ?ts]"
  define m1 where "m1 = m\<lparr>f_table := ?t1, f_tombstone_count := f_tombstone_count m + 1,
                       f_size := size_t_dec (f_size m)\<rparr>"
  have ts: "flat_is_tombstone ?ts" by (rule flat_erased_slot_tombstone)
  then have nts: "\<not> flat_occupied ?ts" using flat_states_exclusive(3) by blast
  have ntp: "\<not> flat_is_tombstone (?t ! p)" using p(3) flat_states_exclusive(3) by blast
  have ok1: "flat_table_ok hf ?t1" by (rule flat_table_ok_tombstone [OF ok pl ts])
  have c1: "length (filter flat_occupied ?t1) + 1 = length (filter flat_occupied ?t)"
    using length_filter_update [OF pl, where P = flat_occupied and x = ?ts] nts p(3) by simp
  have c2: "length (filter flat_is_tombstone ?t1) = length (filter flat_is_tombstone ?t) + 1"
    using length_filter_update [OF pl, where P = flat_is_tombstone and x = ?ts] ts ntp by simp
  have szpos: "0 < f_size m" using c1 sz by linarith
  then have dec: "size_t_dec (f_size m) = f_size m - 1" by (simp add: size_t_dec_def)
  have sz1: "f_size m1 + 1 = f_size m" using szpos by (simp add: m1_def dec)
  have fields1: "f_table m1 = ?t1" "f_capacity m1 = f_capacity m"
    "f_tombstone_count m1 = f_tombstone_count m + 1" "f_size m1 = f_size m - 1"
    by (simp_all add: m1_def dec)
  have "f_size m1 = length (filter flat_occupied ?t1)"
    unfolding fields1 using c1 sz by linarith
  moreover have "f_tombstone_count m1 = length (filter flat_is_tombstone ?t1)"
    unfolding fields1 using c2 tc by linarith
  ultimately have wf1: "flat_wf hf m1"
    unfolding flat_wf_def using len cap ok1 by (simp add: fields1)
  have cont1: "flat_contents (f_table m1) = {(a, b) \<in> flat_contents ?t. a \<noteq> k}"
    using flat_contents_tombstone [OF kd pl p(3,4) ts] by (simp add: m1_def)
  have cap1: "f_capacity m1 = 2 ^ n" by (simp add: m1_def cap)
  have er: "flat_erase hf m k =
     (if f_capacity m1 < 4 * f_tombstone_count m1 \<and> 0 < f_size m1
      then (case flat_rehash m1 (f_capacity m1) of Inl e \<Rightarrow> Inl e | Inr m2 \<Rightarrow> Inr (m2, True))
      else Inr (m1, True))"
  proof -
    have "flat_erase hf m k =
     (if quotient_exceeds (f_tombstone_count m1) (f_capacity m1) MAX_TOMBSTONE_RATIO \<and> 0 < f_size m1
      then (case flat_rehash m1 (f_capacity m1) of Inl e \<Rightarrow> Inl e | Inr m2 \<Rightarrow> Inr (m2, True))
      else Inr (m1, True))"
      unfolding flat_erase_def fs m1_def Let_def using p(2) by simp
    then show ?thesis by (simp only: tombstones_exceed_iff)
  qed
  show ?thesis
  proof (cases "f_capacity m1 < 4 * f_tombstone_count m1 \<and> 0 < f_size m1")
    case False
    then have res: "flat_erase hf m k = Inr (m1, True)" unfolding er by (rule if_not_P)
    have "4 * f_size m1 \<le> 3 * f_capacity m1" using load sz1 cap cap1 by simp
    moreover have l: "f_size m1 = 0 \<or> 4 * f_tombstone_count m1 \<le> f_capacity m1"
      using False by auto
    ultimately have inv1: "flat_inv hf m1"
      unfolding flat_inv_def using wf1 cap1 by auto
    show ?thesis
      using res inv1 True cont1 sz1 cap cap1 l
      by (intro exI [of _ m1] exI [of _ True]) simp
  next
    case c: True
    from wf1 have ok1': "flat_table_ok hf (f_table m1)"
      and sz1': "f_size m1 = length (filter flat_occupied (f_table m1))"
      and len1: "length (f_table m1) = f_capacity m1"
      by (simp_all add: flat_wf_def)
    have "length (filter flat_occupied (f_table m1)) \<le> length (f_table m1)" by simp
    then have room: "length (filter flat_occupied (f_table m1)) \<le> 2 ^ n"
      using len1 cap1 by simp
    from flat_rehash_ok [OF ok1' room]
    obtain m2 where m2: "flat_rehash m1 (2 ^ n) = Inr m2" "f_capacity m2 = 2 ^ n"
      "length (f_table m2) = 2 ^ n" "f_size m2 = f_size m1" "f_tombstone_count m2 = 0"
      "flat_table_ok hf (f_table m2)" "filter flat_is_tombstone (f_table m2) = []"
      "flat_contents (f_table m2) = flat_contents (f_table m1)"
      "length (filter flat_occupied (f_table m2)) = length (filter flat_occupied (f_table m1))"
      by blast
    have "flat_erase hf m k
        = (case flat_rehash m1 (f_capacity m1) of Inl e \<Rightarrow> Inl e | Inr m2 \<Rightarrow> Inr (m2, True))"
      unfolding er using c by (rule if_P)
    then have res: "flat_erase hf m k = Inr (m2, True)" unfolding cap1 m2(1) by simp
    have wf2: "flat_wf hf m2" unfolding flat_wf_def using m2 sz1' by simp
    have "4 * f_size m2 \<le> 3 * f_capacity m2" using load sz1 cap m2(2,4) by simp
    then have inv2: "flat_inv hf m2"
      unfolding flat_inv_def using wf2 m2(2,5) by auto
    show ?thesis
      using res inv2 True cont1 sz1 cap m2(2,4,5,8)
      by (intro exI [of _ m2] exI [of _ True]) simp
  qed
qed

lemma flat_cleared_slot_empty:
  "flat_is_empty ((flat_destroy_slot s)\<lparr>fs_hash := EMPTY_HASH\<rparr>)"
  by (simp add: flat_is_empty_def)

lemma flat_clear_spec:
  assumes inv: "flat_inv hf m"
  shows "flat_inv hf (flat_clear m) \<and> flat_contents (f_table (flat_clear m)) = {}
     \<and> f_size (flat_clear m) = 0 \<and> f_tombstone_count (flat_clear m) = 0
     \<and> f_capacity (flat_clear m) = f_capacity m"
proof -
  let ?t' = "map (\<lambda>slot. (flat_destroy_slot slot)\<lparr>fs_hash := EMPTY_HASH\<rparr>) (f_table m)"
  have e: "flat_is_empty s" if "s \<in> set ?t'" for s
    using that flat_cleared_slot_empty by auto
  then have no: "\<not> flat_occupied s" "\<not> flat_is_tombstone s" if "s \<in> set ?t'" for s
    using that flat_states_exclusive by blast+
  then have f: "filter flat_occupied ?t' = []" "filter flat_is_tombstone ?t' = []"
    by (metis filter_False)+
  have no': "\<not> flat_occupied (?t' ! p)" if "p < length ?t'" for p
    using no(1) nth_mem [OF that] by blast
  have ok: "flat_table_ok hf ?t'"
    unfolding flat_table_ok_def flat_slots_ok_def flat_keys_distinct_def flat_probe_ok_def
    using no(1) no' by blast
  have c: "flat_contents ?t' = {}"
    unfolding flat_contents_def using no(1) by blast
  from inv have "length (f_table m) = f_capacity m" "f_capacity m = 0 \<or> (\<exists>n. f_capacity m = 2 ^ n)"
    by (simp_all add: flat_inv_def flat_wf_def)
  then show ?thesis
    unfolding flat_inv_def flat_wf_def flat_clear_def using f ok c by simp
qed

lemma flat_subscript_spec:
  assumes inv: "flat_inv hf m" and r: "flat_subscript hf dv m k = Inr (m', p)"
  shows "flat_inv hf m'"
proof (cases "k \<in> fst ` flat_contents (f_table m)")
  case True
  then obtain w where kw: "(k, w) \<in> flat_contents (f_table m)" by auto
  from flat_find_present [OF inv kw] obtain q where q: "flat_find hf m k = Inr (Some q)" by blast
  then have "flat_find_slot m k (make_hash (hf k)) = Inr q" "q \<noteq> f_capacity m"
    unfolding flat_find_def by (auto split: sum.splits if_splits)
  with r have "m' = m" unfolding flat_subscript_def by simp
  with inv show ?thesis by simp
next
  case False
  from flat_find_absent [OF inv False]
  have fs: "flat_find_slot m k (make_hash (hf k)) = Inr (f_capacity m)"
    unfolding flat_find_def by (auto split: sum.splits if_splits)
  show ?thesis
  proof (cases "f_capacity m = 0")
    case True
    from flat_insert_zero [OF inv True] r fs show ?thesis
      unfolding flat_subscript_def by simp
  next
    case c: False
    from flat_insert_spec [OF inv c, of k dv] r fs show ?thesis
      unfolding flat_subscript_def by auto
  qed
qed

text \<open>Every call that returns preserves the invariant; so does every run.\<close>

lemma flat_call_inv:
  assumes inv: "flat_inv hf m" and r: "flat_call hf dv m c = Inr m'"
  shows "flat_inv hf m'"
proof (cases c)
  case (Insert k v)
  show ?thesis
  proof (cases "f_capacity m = 0")
    case True
    from flat_insert_zero [OF inv True] r Insert show ?thesis by simp
  next
    case False
    from flat_insert_spec [OF inv False, of k v] r Insert show ?thesis by auto
  qed
next
  case (Erase k)
  from flat_erase_spec [OF inv, of k] r Erase show ?thesis by auto
next
  case Clear
  with flat_clear_spec [OF inv] r show ?thesis by auto
next
  case (Subscript k)
  with r obtain p where "flat_subscript hf dv m k = Inr (m', p)"
    by (cases "flat_subscript hf dv m k") auto
  from flat_subscript_spec [OF inv this] show ?thesis .
next
  case (Find k)
  with r have "m' = m" by (cases "flat_find hf m k") auto
  with inv show ?thesis by simp
next
  case (Contains k)
  with r have "m' = m" by (cases "flat_contains hf m k") auto
  with inv show ?thesis by simp
qed

lemma flat_run_inv:
  assumes "flat_inv hf m" "flat_run hf dv m cs = Inr m'"
  shows "flat_inv hf m'"
  using assms
proof (induction cs arbitrary: m)
  case Nil
  then show ?case by simp
next
  case (Cons c cs)
  from Cons.prems(2) obtain m1 where m1: "flat_call hf dv m c = Inr m1" "flat_run hf dv m1 cs = Inr m'"
    by (cases "flat_call hf dv m c") auto
  from flat_call_inv [OF Cons.prems(1) m1(1)] have "flat_inv hf m1" .
  from Cons.IH [OF this m1(2)] show ?case .
qed

lemma flat_inv_fresh:
  assumes "f_capacity m = 0 \<or> (\<exists>n. f_capacity m = 2 ^ n)"
    and "f_table m = replicate (f_capacity m) flat_Slot" "f_size m = 0" "f_tombstone_count m = 0"
  shows "flat_inv hf m"
  unfolding flat_inv_def flat_wf_def using assms
  by (simp add: flat_filter_replicate flat_table_ok_replicate)

lemma flat_construct_inv:
  assumes "flat_construct c = Some m"
  shows "flat_inv hf m"
proof (cases c)
  case Default_ctor
  have "(16::nat) = 2 ^ 4" by simp
  then have "\<exists>n. (16::nat) = 2 ^ n" by blast
  with assms Default_ctor show ?thesis
    by (intro flat_inv_fresh) (auto simp: FlatHashMap_def INITIAL_CAPACITY_def)
next
  case (Sized_ctor e)
  with assms obtain x where x: "scaled_expected_size e = Some x"
    and m: "m = \<lparr>f_table = replicate (unat (next_power_of_2 (word_of_nat x))) flat_Slot, f_size = 0,
                f_capacity = unat (next_power_of_2 (word_of_nat x)), f_tombstone_count = 0\<rparr>"
    by (auto simp: FlatHashMap_sized_def Let_def split: option.splits)
  show ?thesis
    by (intro flat_inv_fresh) (use unat_next_power_of_2 [of "word_of_nat x"] in \<open>simp_all add: m\<close>)
qed


section \<open>The indirect backend simulates the inline one\<close>

lemma slot_rel_states:
  assumes "slot_rel es f s"
  shows "flat_is_empty f = node_is_empty s" "flat_is_tombstone f = node_is_tombstone s"
    "fs_hash f = ns_hash s"
  using assms
  by (auto simp: slot_rel_def flat_is_empty_def flat_is_tombstone_def node_is_empty_def
      node_is_tombstone_def tombstone_ptr_def EMPTY_HASH_def TOMBSTONE_HASH_def
      split: entry_ptr.splits)

lemma slot_rel_key:
  assumes "slot_rel es f s" "\<not> node_is_empty s" "\<not> node_is_tombstone s"
  shows "fs_key f = Some k \<longleftrightarrow> node_key_equals es (ns_entry s) k"
  using assms
  by (auto simp: slot_rel_def node_is_empty_def node_is_tombstone_def tombstone_ptr_def
      node_key_equals_def split: entry_ptr.splits)

lemma slot_rel_value:
  assumes "slot_rel es f s" "\<not> node_is_empty s" "\<not> node_is_tombstone s"
  shows "fs_value f = (if node_value_ptr (ns_entry s) < length es
                       then Some (snd (es ! node_value_ptr (ns_entry s))) else None)"
  using assms
  by (auto simp: slot_rel_def node_is_empty_def node_is_tombstone_def tombstone_ptr_def
      node_value_ptr_def split: entry_ptr.splits)

lemma slot_rel_append: "slot_rel es f s \<Longrightarrow> slot_rel (es @ [x]) f s"
  by (auto simp: slot_rel_def nth_append split: entry_ptr.splits)

lemma map_rel_nth:
  assumes "map_rel fm nm" "pos < length (n_table nm)"
  shows "slot_rel (n_entries nm) (f_table fm ! pos) (n_table nm ! pos)"
  using assms by (simp add: map_rel_def list_all2_conv_all_nth)

lemma map_rel_length: "map_rel fm nm \<Longrightarrow> length (f_table fm) = length (n_table nm)"
  by (auto simp: map_rel_def dest: list_all2_lengthD)

lemma map_rel_capacity: "map_rel fm nm \<Longrightarrow> f_capacity fm = n_capacity nm"
  by (simp add: map_rel_def)

lemma find_slot_loop_sim:
  assumes rel: "map_rel fm nm"
  shows "flat_find_slot_loop fm key hash index i = node_find_slot_loop nm key hash index i"
proof (induction "n_capacity nm - i" arbitrary: i)
  case 0
  then show ?case
    using map_rel_capacity [OF rel]
    by (subst flat_find_slot_loop.simps, subst node_find_slot_loop.simps) simp
next
  case (Suc x)
  then have lt: "i < n_capacity nm" by simp
  let ?pos = "probe (n_capacity nm) index i"
  have IH: "flat_find_slot_loop fm key hash index (i + 1) = node_find_slot_loop nm key hash index (i + 1)"
    using Suc.hyps(1) [of "i + 1"] Suc.hyps(2) by simp
  show ?case
  proof (cases "?pos < length (n_table nm)")
    case False
    then show ?thesis
      using lt map_rel_capacity [OF rel] map_rel_length [OF rel]
      by (subst flat_find_slot_loop.simps, subst node_find_slot_loop.simps) (simp add: Let_def)
  next
    case True
    note sr = map_rel_nth [OF rel True]
    show ?thesis
      using lt True IH map_rel_capacity [OF rel] map_rel_length [OF rel]
        slot_rel_states [OF sr] slot_rel_key [OF sr, of key]
      by (subst flat_find_slot_loop.simps, subst node_find_slot_loop.simps) (simp add: Let_def)
  qed
qed

lemma find_slot_sim:
  assumes "map_rel fm nm"
  shows "flat_find_slot fm key hash = node_find_slot nm key hash"
  unfolding flat_find_slot_def node_find_slot_def
  using find_slot_loop_sim [OF assms] map_rel_capacity [OF assms] by simp


lemma insert_internal_loop_sim:
  assumes rel: "map_rel fm nm"
    and new: "slot_rel (n_entries nm) \<lparr>fs_hash = hash, fs_key = key, fs_value = val\<rparr>
                \<lparr>ns_hash = hash, ns_entry = entry\<rparr>"
  shows "rel_sum (=) (\<lambda>fm' nm'. map_rel fm' nm' \<and> n_entries nm' = n_entries nm)
           (flat_insert_internal_loop fm hash key val index i)
           (node_insert_internal_loop nm hash entry index i)"
proof (induction "n_capacity nm - i" arbitrary: i)
  case 0
  then show ?case
    using map_rel_capacity [OF rel]
    by (subst flat_insert_internal_loop.simps, subst node_insert_internal_loop.simps) simp
next
  case (Suc x)
  then have lt: "i < n_capacity nm" by simp
  let ?pos = "probe (n_capacity nm) index i"
  have IH: "rel_sum (=) (\<lambda>fm' nm'. map_rel fm' nm' \<and> n_entries nm' = n_entries nm)
           (flat_insert_internal_loop fm hash key val index (i + 1))
           (node_insert_internal_loop nm hash entry index (i + 1))"
    using Suc.hyps(1) [of "i + 1"] Suc.hyps(2) by simp
  show ?case
  proof (cases "?pos < length (n_table nm)")
    case False
    then show ?thesis
      using lt map_rel_capacity [OF rel] map_rel_length [OF rel]
      by (subst flat_insert_internal_loop.simps, subst node_insert_internal_loop.simps)
        (simp add: Let_def)
  next
    case True
    note sr = map_rel_nth [OF rel True]
    from rel have l: "list_all2 (slot_rel (n_entries nm)) (f_table fm) (n_table nm)"
      by (simp add: map_rel_def)
    have upd: "list_all2 (slot_rel (n_entries nm))
        ((f_table fm)[?pos := \<lparr>fs_hash = hash, fs_key = key, fs_value = val\<rparr>])
        ((n_table nm)[?pos := \<lparr>ns_hash = hash, ns_entry = entry\<rparr>])"
      by (rule list_all2_update_cong [OF l new])
    show ?thesis
    proof (cases "node_is_empty (n_table nm ! ?pos) \<or> node_is_tombstone (n_table nm ! ?pos)")
      case free: True
      then show ?thesis
        using lt True upd rel map_rel_capacity [OF rel] map_rel_length [OF rel]
          slot_rel_states [OF sr]
        by (subst flat_insert_internal_loop.simps, subst node_insert_internal_loop.simps)
          (simp add: Let_def map_rel_def)
    next
      case False
      then show ?thesis
        using lt True IH map_rel_capacity [OF rel] map_rel_length [OF rel]
          slot_rel_states [OF sr]
        by (subst flat_insert_internal_loop.simps, subst node_insert_internal_loop.simps)
          (simp add: Let_def)
    qed
  qed
qed

lemma slot_rel_fields:
  assumes "slot_rel es f s"
  shows "slot_rel es \<lparr>fs_hash = fs_hash f, fs_key = fs_key f, fs_value = fs_value f\<rparr>
           \<lparr>ns_hash = ns_hash s, ns_entry = ns_entry s\<rparr>"
  using assms by (auto simp: slot_rel_def split: entry_ptr.splits)

lemma rehash_loop_sim:
  assumes "list_all2 (slot_rel es) xs ys" "map_rel fm nm" "n_entries nm = es"
  shows "rel_sum (=) (\<lambda>fm' nm'. map_rel fm' nm' \<and> n_entries nm' = es)
           (flat_rehash_loop xs fm) (node_rehash_loop ys nm)"
  using assms
proof (induction xs ys arbitrary: fm nm rule: list_all2_induct)
  case Nil
  then show ?case by simp
next
  case (Cons x xs y ys)
  note st = slot_rel_states [OF Cons.hyps(1)]
  show ?case
  proof (cases "\<not> node_is_empty y \<and> \<not> node_is_tombstone y")
    case False
    with st Cons.IH [OF Cons.prems] show ?thesis by auto
  next
    case True
    have new: "slot_rel (n_entries nm) \<lparr>fs_hash = fs_hash x, fs_key = fs_key x, fs_value = fs_value x\<rparr>
                \<lparr>ns_hash = fs_hash x, ns_entry = ns_entry y\<rparr>"
      using slot_rel_fields [OF Cons.hyps(1)] st(3) Cons.prems(2) by simp
    from insert_internal_loop_sim [OF Cons.prems(1) new]
    have sim: "rel_sum (=) (\<lambda>fm' nm'. map_rel fm' nm' \<and> n_entries nm' = n_entries nm)
           (flat_insert_internal fm (fs_hash x) (fs_key x) (fs_value x))
           (node_insert_internal nm (ns_hash y) (ns_entry y))"
      unfolding flat_insert_internal_def node_insert_internal_def
      using map_rel_capacity [OF Cons.prems(1)] st(3) by simp
    show ?thesis
    proof (cases "flat_insert_internal fm (fs_hash x) (fs_key x) (fs_value x)")
      case (Inl e)
      with sim have "node_insert_internal nm (ns_hash y) (ns_entry y) = Inl e"
        by (cases "node_insert_internal nm (ns_hash y) (ns_entry y)") simp_all
      with Inl True st show ?thesis by simp
    next
      case (Inr fm1)
      with sim obtain nm1 where nm1: "node_insert_internal nm (ns_hash y) (ns_entry y) = Inr nm1"
        "map_rel fm1 nm1" "n_entries nm1 = n_entries nm"
        by (cases "node_insert_internal nm (ns_hash y) (ns_entry y)") simp_all
      from Cons.IH [OF nm1(2)] nm1(3) Cons.prems(2)
      have "rel_sum (=) (\<lambda>fm' nm'. map_rel fm' nm' \<and> n_entries nm' = es)
           (flat_rehash_loop xs fm1) (node_rehash_loop ys nm1)" by simp
      with Inr nm1(1) True st show ?thesis by simp
    qed
  qed
qed

lemma slot_rel_fresh: "slot_rel es flat_Slot node_Slot"
  by (simp add: slot_rel_def flat_Slot_def node_Slot_def EMPTY_HASH_def)

lemma rehash_sim:
  assumes rel: "map_rel fm nm"
  shows "rel_sum (=) (\<lambda>fm' nm'. map_rel fm' nm' \<and> n_entries nm' = n_entries nm)
           (flat_rehash fm c) (node_rehash nm c)"
proof -
  have "list_all2 (slot_rel (n_entries nm)) (replicate c flat_Slot) (replicate c node_Slot)"
    by (simp add: list_all2_conv_all_nth slot_rel_fresh)
  then have "map_rel (fm\<lparr>f_table := replicate c flat_Slot, f_capacity := c, f_tombstone_count := 0\<rparr>)
     (nm\<lparr>n_table := replicate c node_Slot, n_capacity := c, n_tombstone_count := 0\<rparr>)"
    using rel by (simp add: map_rel_def)
  moreover from rel have "list_all2 (slot_rel (n_entries nm)) (f_table fm) (n_table nm)"
    by (simp add: map_rel_def)
  ultimately show ?thesis
    unfolding flat_rehash_def node_rehash_def
    by (intro rehash_loop_sim) simp_all
qed

lemma slot_rel_erased:
  "slot_rel es ((flat_destroy_slot f)\<lparr>fs_hash := TOMBSTONE_HASH\<rparr>)
     \<lparr>ns_hash = TOMBSTONE_HASH, ns_entry = tombstone_ptr\<rparr>"
  by (simp add: slot_rel_def tombstone_ptr_def)

lemma erase_sim:
  assumes rel: "map_rel fm nm"
  shows "rel_sum (=) (\<lambda>(fm', b) (nm', b'). map_rel fm' nm' \<and> b = b')
           (flat_erase hf fm key) (node_erase hf nm key)"
proof (cases "node_find_slot nm key (make_hash (hf key))")
  case (Inl e)
  then show ?thesis
    unfolding flat_erase_def node_erase_def find_slot_sim [OF rel] by simp
next
  case (Inr pos)
  note cap = map_rel_capacity [OF rel]
  show ?thesis
  proof (cases "pos = n_capacity nm")
    case True
    with Inr rel cap show ?thesis
      unfolding flat_erase_def node_erase_def find_slot_sim [OF rel] by simp
  next
    case False
    define fm1 where "fm1 = fm\<lparr>f_table := (f_table fm)
                          [pos := (flat_destroy_slot (f_table fm ! pos))\<lparr>fs_hash := TOMBSTONE_HASH\<rparr>],
                       f_tombstone_count := f_tombstone_count fm + 1,
                       f_size := size_t_dec (f_size fm)\<rparr>"
    define nm1 where "nm1 = nm\<lparr>n_table := (n_table nm)
                          [pos := \<lparr>ns_hash = TOMBSTONE_HASH, ns_entry = tombstone_ptr\<rparr>],
                       n_tombstone_count := n_tombstone_count nm + 1,
                       n_size := size_t_dec (n_size nm)\<rparr>"
    from rel have l: "list_all2 (slot_rel (n_entries nm)) (f_table fm) (n_table nm)"
      by (simp add: map_rel_def)
    have rel1: "map_rel fm1 nm1"
      using rel list_all2_update_cong [OF l slot_rel_erased]
      by (simp add: map_rel_def fm1_def nm1_def)
    have f: "flat_erase hf fm key =
       (if quotient_exceeds (f_tombstone_count fm1) (f_capacity fm1) MAX_TOMBSTONE_RATIO \<and> 0 < f_size fm1
        then (case flat_rehash fm1 (f_capacity fm1) of Inl e \<Rightarrow> Inl e | Inr m2 \<Rightarrow> Inr (m2, True))
        else Inr (fm1, True))"
      unfolding flat_erase_def find_slot_sim [OF rel] Inr fm1_def Let_def using False cap by simp
    have n: "node_erase hf nm key =
       (if quotient_exceeds (n_tombstone_count nm1) (n_capacity nm1) MAX_TOMBSTONE_RATIO \<and> 0 < n_size nm1
        then (case node_rehash nm1 (n_capacity nm1) of Inl e \<Rightarrow> Inl e | Inr m2 \<Rightarrow> Inr (m2, True))
        else Inr (nm1, True))"
      unfolding node_erase_def Inr nm1_def Let_def using False by simp
    have eqs: "f_tombstone_count fm1 = n_tombstone_count nm1" "f_capacity fm1 = n_capacity nm1"
      "f_size fm1 = n_size nm1" using rel1 by (simp_all add: map_rel_def)
    show ?thesis
    proof (cases "quotient_exceeds (n_tombstone_count nm1) (n_capacity nm1) MAX_TOMBSTONE_RATIO \<and> 0 < n_size nm1")
      case False
      then show ?thesis unfolding f n eqs using rel1 by auto
    next
      case True
      from rehash_sim [OF rel1, of "n_capacity nm1"]
      have "rel_sum (=) (\<lambda>(fm', b) (nm', b'). map_rel fm' nm' \<and> b = b')
           (case flat_rehash fm1 (n_capacity nm1) of Inl e \<Rightarrow> Inl e | Inr m2 \<Rightarrow> Inr (m2, True))
           (case node_rehash nm1 (n_capacity nm1) of Inl e \<Rightarrow> Inl e | Inr m2 \<Rightarrow> Inr (m2, True))"
        by (cases "flat_rehash fm1 (n_capacity nm1)"; cases "node_rehash nm1 (n_capacity nm1)") simp_all
      with True show ?thesis unfolding f n eqs by simp
    qed
  qed
qed


lemma map_rel_place:
  assumes rel: "map_rel fm nm" and h: "2 \<le> hash"
  shows "list_all2 (slot_rel (n_entries nm @ [(key, val)]))
           ((f_table fm)[ip := \<lparr>fs_hash = hash, fs_key = Some key, fs_value = Some val\<rparr>])
           ((n_table nm)[ip := \<lparr>ns_hash = hash, ns_entry = Entry_ptr (length (n_entries nm))\<rparr>])"
proof -
  from rel have "list_all2 (slot_rel (n_entries nm)) (f_table fm) (n_table nm)"
    by (simp add: map_rel_def)
  then have "list_all2 (slot_rel (n_entries nm @ [(key, val)])) (f_table fm) (n_table nm)"
    by (rule list_all2_mono) (rule slot_rel_append)
  moreover have "slot_rel (n_entries nm @ [(key, val)])
      \<lparr>fs_hash = hash, fs_key = Some key, fs_value = Some val\<rparr>
      \<lparr>ns_hash = hash, ns_entry = Entry_ptr (length (n_entries nm))\<rparr>"
    using h by (simp add: slot_rel_def)
  ultimately show ?thesis by (rule list_all2_update_cong)
qed

lemma map_rel_assign:
  assumes rel: "map_rel fm nm" and kd: "flat_keys_distinct (f_table fm)"
    and pos: "pos < length (n_table nm)" and e: "ns_entry (n_table nm ! pos) = Entry_ptr p"
  shows "list_all2 (slot_rel ((n_entries nm)[p := (fst (n_entries nm ! p), val)]))
           ((f_table fm)[pos := (f_table fm ! pos)\<lparr>fs_value := Some val\<rparr>]) (n_table nm)"
    and "p < length (n_entries nm)"
proof -
  let ?es = "n_entries nm" and ?t = "f_table fm" and ?nt = "n_table nm"
  let ?es' = "?es[p := (fst (?es ! p), val)]"
  note len = map_rel_length [OF rel]
  from map_rel_nth [OF rel pos] e
  have sp: "fs_hash (?t ! pos) = ns_hash (?nt ! pos)" "2 \<le> fs_hash (?t ! pos)" "p < length ?es"
    "fs_key (?t ! pos) = Some (fst (?es ! p))"
    by (simp_all add: slot_rel_def)
  show "p < length ?es" by (rule sp(3))
  show "list_all2 (slot_rel ?es') (?t[pos := (?t ! pos)\<lparr>fs_value := Some val\<rparr>]) ?nt"
    unfolding list_all2_conv_all_nth
  proof (intro conjI allI impI)
    show "length (?t[pos := (?t ! pos)\<lparr>fs_value := Some val\<rparr>]) = length ?nt"
      using len by simp
  next
    fix j assume "j < length (?t[pos := (?t ! pos)\<lparr>fs_value := Some val\<rparr>])"
    then have j: "j < length ?nt" using len by simp
    note sj = map_rel_nth [OF rel j]
    show "slot_rel ?es' (?t[pos := (?t ! pos)\<lparr>fs_value := Some val\<rparr>] ! j) (?nt ! j)"
    proof (cases "j = pos")
      case True
      with sp e pos len show ?thesis by (simp add: slot_rel_def)
    next
      case False
      have "ns_entry (?nt ! j) \<noteq> Entry_ptr p"
      proof
        assume a: "ns_entry (?nt ! j) = Entry_ptr p"
        with sj have "2 \<le> fs_hash (?t ! j)" "fs_key (?t ! j) = Some (fst (?es ! p))"
          by (simp_all add: slot_rel_def)
        with sp kd j pos len have "j = pos"
          unfolding flat_keys_distinct_def flat_occupied_iff by metis
        with False show False by simp
      qed
      with sj False show ?thesis
        by (auto simp: slot_rel_def split: entry_ptr.splits)
    qed
  qed
qed

lemma insert_loop_sim:
  assumes rel: "map_rel fm nm" and kd: "flat_keys_distinct (f_table fm)" and h: "2 \<le> hash"
    and ft: "ft = n_capacity nm \<or> ft < length (n_table nm)"
  shows "rel_sum (=)
           (\<lambda>(fm', p, b) (nm', q, b'). map_rel fm' nm' \<and> b = b' \<and> flat_deref fm' p = node_deref nm' q)
           (flat_insert_loop fm key val hash index ft i)
           (node_insert_loop nm key val hash index ft i)"
    (is "?R (flat_insert_loop fm key val hash index ft i) _")
  using ft
proof (induction "n_capacity nm - i" arbitrary: i ft)
  case 0
  then show ?case
    using map_rel_capacity [OF rel]
    by (subst flat_insert_loop.simps, subst node_insert_loop.simps) simp
next
  case (Suc x)
  then have lt: "i < n_capacity nm" by simp
  note cap = map_rel_capacity [OF rel] and len = map_rel_length [OF rel]
  let ?pos = "probe (n_capacity nm) index i"
  let ?t = "f_table fm" and ?nt = "n_table nm" and ?es = "n_entries nm"
  note funfold = flat_insert_loop.simps [of fm key val hash index ft i]
  note nunfold = node_insert_loop.simps [of nm key val hash index ft i]
  show ?case
  proof (cases "?pos < length ?nt")
    case False
    then show ?thesis
      using lt cap len by (subst funfold, subst nunfold) (simp add: Let_def)
  next
    case True
    note sr = map_rel_nth [OF rel True]
    note st = slot_rel_states [OF sr]
    consider (empty) "node_is_empty (?nt ! ?pos)"
      | (tomb1) "\<not> node_is_empty (?nt ! ?pos)" "node_is_tombstone (?nt ! ?pos)" "ft = n_capacity nm"
      | (match) "\<not> node_is_empty (?nt ! ?pos)" "\<not> node_is_tombstone (?nt ! ?pos)"
          "ns_hash (?nt ! ?pos) = hash" "node_key_equals ?es (ns_entry (?nt ! ?pos)) key"
      | (skip) "\<not> node_is_empty (?nt ! ?pos)" "\<not> (node_is_tombstone (?nt ! ?pos) \<and> ft = n_capacity nm)"
          "\<not> (\<not> node_is_tombstone (?nt ! ?pos) \<and> ns_hash (?nt ! ?pos) = hash
             \<and> node_key_equals ?es (ns_entry (?nt ! ?pos)) key)"
      by blast
    then show ?thesis
    proof cases
      case empty
      define ip where "ip = (if ft \<noteq> n_capacity nm then ft else ?pos)"
      have ipl: "ip < length ?nt" using Suc.prems True by (auto simp: ip_def)
      define fm' where "fm' = fm\<lparr>f_tombstone_count :=
                      (if ft \<noteq> n_capacity nm
                       then size_t_dec (f_tombstone_count fm) else f_tombstone_count fm),
                    f_table := ?t[ip := \<lparr>fs_hash = hash, fs_key = Some key, fs_value = Some val\<rparr>],
                    f_size := f_size fm + 1\<rparr>"
      define nm' where "nm' = nm\<lparr>n_tombstone_count :=
                         (if ft \<noteq> n_capacity nm
                          then size_t_dec (n_tombstone_count nm) else n_tombstone_count nm),
                       n_entries := ?es @ [(key, val)],
                       n_table := ?nt[ip := \<lparr>ns_hash = hash, ns_entry = Entry_ptr (length ?es)\<rparr>],
                       n_size := n_size nm + 1\<rparr>"
      have f: "flat_insert_loop fm key val hash index ft i = Inr (fm', ip, True)"
        using lt True empty st cap len
        by (subst funfold) (simp add: Let_def fm'_def ip_def)
      have n: "node_insert_loop nm key val hash index ft i = Inr (nm', length ?es, True)"
        using lt True empty
        by (subst nunfold) (simp add: Let_def nm'_def ip_def)
      have "map_rel fm' nm'"
        using rel map_rel_place [OF rel h, where key = key and val = val and ip = ip]
        by (simp add: map_rel_def fm'_def nm'_def)
      moreover have "flat_deref fm' ip = node_deref nm' (length ?es)"
        using ipl len by (simp add: flat_deref_def node_deref_def fm'_def nm'_def)
      ultimately show ?thesis unfolding f n by simp
    next
      case tomb1
      have f: "flat_insert_loop fm key val hash index ft i
                 = flat_insert_loop fm key val hash index ?pos (i + 1)"
        using lt True tomb1 st cap len by (subst funfold) (simp add: Let_def)
      have n: "node_insert_loop nm key val hash index ft i
                 = node_insert_loop nm key val hash index ?pos (i + 1)"
        using lt True tomb1 by (subst nunfold) (simp add: Let_def)
      have "x = n_capacity nm - (i + 1)" using Suc.hyps(2) by simp
      moreover have "?pos = n_capacity nm \<or> ?pos < length ?nt" using True by simp
      ultimately show ?thesis unfolding f n by (rule Suc.hyps(1))
    next
      case match
      from match(1,2) obtain p where e: "ns_entry (?nt ! ?pos) = Entry_ptr p"
        by (cases "ns_entry (?nt ! ?pos)")
          (simp_all add: node_is_empty_def node_is_tombstone_def tombstone_ptr_def)
      define fm' where "fm' = fm\<lparr>f_table := ?t[?pos := (?t ! ?pos)\<lparr>fs_value := Some val\<rparr>]\<rparr>"
      define nm' where "nm' = nm\<lparr>n_entries := ?es[p := (fst (?es ! p), val)]\<rparr>"
      have fk: "fs_key (?t ! ?pos) = Some key"
        using slot_rel_key [OF sr match(1,2), where k = key] match(4) by simp
      have f: "flat_insert_loop fm key val hash index ft i = Inr (fm', ?pos, False)"
        using lt True match st cap len fk
        by (subst funfold) (simp add: Let_def fm'_def)
      have n: "node_insert_loop nm key val hash index ft i = Inr (nm', p, False)"
        using lt True match e
        by (subst nunfold) (simp add: Let_def nm'_def node_assign_value_def node_value_ptr_def)
      note a = map_rel_assign [OF rel kd True e]
      have "map_rel fm' nm'"
        using rel a(1) [of val] by (simp add: map_rel_def fm'_def nm'_def)
      moreover have "flat_deref fm' ?pos = node_deref nm' p"
        using True len a(2) by (simp add: flat_deref_def node_deref_def fm'_def nm'_def)
      ultimately show ?thesis unfolding f n by simp
    next
      case skip
      have fk: "fs_key (?t ! ?pos) = Some key \<longleftrightarrow> node_key_equals ?es (ns_entry (?nt ! ?pos)) key"
        if "\<not> node_is_tombstone (?nt ! ?pos)"
        using slot_rel_key [OF sr skip(1) that, where k = key] .
      have f: "flat_insert_loop fm key val hash index ft i
                 = flat_insert_loop fm key val hash index ft (i + 1)"
        using lt True skip st cap len fk by (subst funfold) (auto simp add: Let_def)
      have n: "node_insert_loop nm key val hash index ft i
                 = node_insert_loop nm key val hash index ft (i + 1)"
        using lt True skip by (subst nunfold) (auto simp add: Let_def)
      have "x = n_capacity nm - (i + 1)" using Suc.hyps(2) by simp
      then show ?thesis unfolding f n using Suc.prems by (rule Suc.hyps(1))
    qed
  qed
qed


lemma flat_table_ok_Nil: "flat_table_ok hf []"
  by (simp add: flat_table_ok_def flat_slots_ok_def flat_keys_distinct_def flat_probe_ok_def)

lemma flat_grow_table_ok:
  assumes inv: "flat_inv hf m" and r: "flat_rehash m (f_capacity m * 2) = Inr m1"
  shows "flat_table_ok hf (f_table m1)"
proof (cases rule: flat_inv_cases [OF inv])
  case 1
  with r flat_rehash_zero [of m] show ?thesis by (auto simp: flat_table_ok_Nil)
next
  case (2 n)
  from inv have ok: "flat_table_ok hf (f_table m)" by (simp add: flat_inv_def flat_wf_def)
  have "length (filter flat_occupied (f_table m)) \<le> length (f_table m)" by simp
  then have room: "length (filter flat_occupied (f_table m)) \<le> 2 ^ Suc n" using 2(2) by simp
  from flat_rehash_ok [OF ok room] r 2(1) show ?thesis by (auto simp: mult.commute)
qed

lemma insert_sim:
  assumes inv: "flat_inv hf fm" and rel: "map_rel fm nm"
  shows "rel_sum (=)
           (\<lambda>(fm', p, b) (nm', q, b'). map_rel fm' nm' \<and> b = b' \<and> flat_deref fm' p = node_deref nm' q)
           (flat_insert hf fm key val) (node_insert hf nm key val)"
proof -
  define fc where "fc = (if quotient_exceeds (f_size fm + 1) (f_capacity fm) MAX_LOAD_FACTOR
               \<or> quotient_exceeds (f_tombstone_count fm) (f_capacity fm) MAX_TOMBSTONE_RATIO
            then flat_rehash fm (f_capacity fm * 2) else Inr fm)"
  define nc where "nc = (if quotient_exceeds (n_size nm + 1) (n_capacity nm) MAX_LOAD_FACTOR
               \<or> quotient_exceeds (n_tombstone_count nm) (n_capacity nm) MAX_TOMBSTONE_RATIO
            then node_rehash nm (n_capacity nm * 2) else Inr nm)"
  from rel have eqs: "f_size fm = n_size nm" "f_capacity fm = n_capacity nm"
    "f_tombstone_count fm = n_tombstone_count nm" by (simp_all add: map_rel_def)
  have c: "rel_sum (=) map_rel fc nc"
  proof (cases "quotient_exceeds (n_size nm + 1) (n_capacity nm) MAX_LOAD_FACTOR
               \<or> quotient_exceeds (n_tombstone_count nm) (n_capacity nm) MAX_TOMBSTONE_RATIO")
    case True
    from rehash_sim [OF rel, of "n_capacity nm * 2"]
    have "rel_sum (=) map_rel (flat_rehash fm (n_capacity nm * 2)) (node_rehash nm (n_capacity nm * 2))"
      by (rule sum.rel_mono_strong) simp_all
    with True show ?thesis unfolding fc_def nc_def eqs by simp
  next
    case False
    with rel show ?thesis unfolding fc_def nc_def eqs by simp
  qed
  have fi: "flat_insert hf fm key val =
      (case fc of Inl e \<Rightarrow> Inl e
       | Inr m1 \<Rightarrow> flat_insert_loop m1 key val (make_hash (hf key))
           (make_hash (hf key) AND size_t_dec (f_capacity m1)) (f_capacity m1) 0)"
    unfolding flat_insert_def fc_def Let_def ..
  have ni: "node_insert hf nm key val =
      (case nc of Inl e \<Rightarrow> Inl e
       | Inr m1 \<Rightarrow> node_insert_loop m1 key val (make_hash (hf key))
           (make_hash (hf key) AND size_t_dec (n_capacity m1)) (n_capacity m1) 0)"
    unfolding node_insert_def nc_def Let_def ..
  show ?thesis
  proof (cases fc)
    case (Inl e)
    with c have "nc = Inl e" by (cases nc) simp_all
    with Inl show ?thesis unfolding fi ni by simp
  next
    case (Inr fm1)
    with c obtain nm1 where nm1: "nc = Inr nm1" "map_rel fm1 nm1" by (cases nc) simp_all
    have "flat_table_ok hf (f_table fm1)"
    proof (cases "quotient_exceeds (f_size fm + 1) (f_capacity fm) MAX_LOAD_FACTOR
               \<or> quotient_exceeds (f_tombstone_count fm) (f_capacity fm) MAX_TOMBSTONE_RATIO")
      case True
      with Inr have "flat_rehash fm (f_capacity fm * 2) = Inr fm1" by (simp add: fc_def)
      from flat_grow_table_ok [OF inv this] show ?thesis .
    next
      case False
      with Inr have "fm1 = fm" by (simp add: fc_def)
      with inv show ?thesis by (simp add: flat_inv_def flat_wf_def)
    qed
    then have kd: "flat_keys_distinct (f_table fm1)" by (simp add: flat_table_ok_def)
    have ft: "n_capacity nm1 = n_capacity nm1 \<or> n_capacity nm1 < length (n_table nm1)" by simp
    from insert_loop_sim [OF nm1(2) kd make_hash_ge2 ft, of key val "hf key"
        "make_hash (hf key) AND size_t_dec (n_capacity nm1)" 0]
    show ?thesis
      unfolding fi ni Inr nm1(1) using map_rel_capacity [OF nm1(2)] by simp
  qed
qed

lemma clear_sim:
  assumes inv: "flat_inv hf fm" and rel: "map_rel fm nm"
  shows "map_rel (flat_clear fm) (node_clear nm)"
proof -
  from inv have len: "length (f_table fm) = f_capacity fm" by (simp add: flat_inv_def flat_wf_def)
  have "slot_rel [] ((flat_destroy_slot s)\<lparr>fs_hash := EMPTY_HASH\<rparr>) node_Slot" for s :: "('a, 'b) flat_slot"
    by (simp add: slot_rel_def node_Slot_def EMPTY_HASH_def)
  then have "list_all2 (slot_rel [])
       (map (\<lambda>slot. (flat_destroy_slot slot)\<lparr>fs_hash := EMPTY_HASH\<rparr>) (f_table fm))
       (replicate (n_capacity nm) node_Slot)"
    using len map_rel_capacity [OF rel] by (simp add: list_all2_conv_all_nth)
  then show ?thesis
    using rel by (simp add: map_rel_def flat_clear_def node_clear_def)
qed

text \<open>A slot index that \<open>find_slot\<close> returns, other than the capacity, is an occupied slot.\<close>

lemma node_find_slot_loop_hit:
  assumes "node_find_slot_loop nm key hash index i = Inr pos" "pos \<noteq> n_capacity nm"
  shows "pos < length (n_table nm) \<and> \<not> node_is_empty (n_table nm ! pos)
           \<and> \<not> node_is_tombstone (n_table nm ! pos)"
  using assms(1)
proof (induction "n_capacity nm - i" arbitrary: i)
  case 0
  then show ?case using assms(2)
    by (subst (asm) node_find_slot_loop.simps) simp
next
  case (Suc x)
  then have lt: "i < n_capacity nm" by simp
  have "x = n_capacity nm - (i + 1)" using Suc.hyps(2) by simp
  note IH = Suc.hyps(1) [OF this]
  from Suc.prems lt assms(2) IH show ?case
    by (subst (asm) node_find_slot_loop.simps) (auto simp: Let_def split: if_splits)
qed

lemma find_sim:
  assumes rel: "map_rel fm nm"
  shows "flat_find_value hf fm key = node_find_value hf nm key"
    and "flat_contains hf fm key = node_contains hf nm key"
proof -
  note cap = map_rel_capacity [OF rel] and fs = find_slot_sim [OF rel]
  show "flat_contains hf fm key = node_contains hf nm key"
    unfolding flat_contains_def node_contains_def flat_find_def node_find_def fs cap
    by (simp split: sum.splits)
  show "flat_find_value hf fm key = node_find_value hf nm key"
  proof (cases "node_find_slot nm key (make_hash (hf key))")
    case (Inl e)
    then show ?thesis
      unfolding flat_find_value_def node_find_value_def flat_find_def node_find_def fs by simp
  next
    case (Inr pos)
    show ?thesis
    proof (cases "pos = n_capacity nm")
      case True
      with Inr cap show ?thesis
        unfolding flat_find_value_def node_find_value_def flat_find_def node_find_def fs by simp
    next
      case False
      from node_find_slot_loop_hit [OF Inr [unfolded node_find_slot_def] False]
      have p: "pos < length (n_table nm)" "\<not> node_is_empty (n_table nm ! pos)"
        "\<not> node_is_tombstone (n_table nm ! pos)" by simp_all
      from slot_rel_value [OF map_rel_nth [OF rel p(1)] p(2,3)] p(1) map_rel_length [OF rel]
      have "flat_deref fm pos = node_deref nm (node_value_ptr (ns_entry (n_table nm ! pos)))"
        by (simp add: flat_deref_def node_deref_def)
      with Inr False cap show ?thesis
        unfolding flat_find_value_def node_find_value_def flat_find_def node_find_def fs by simp
    qed
  qed
qed

lemma subscript_sim:
  assumes inv: "flat_inv hf fm" and rel: "map_rel fm nm"
  shows "rel_sum (=) (\<lambda>(fm', p) (nm', q). map_rel fm' nm' \<and> flat_deref fm' p = node_deref nm' q)
           (flat_subscript hf dv fm key) (node_subscript hf dv nm key)"
proof -
  note cap = map_rel_capacity [OF rel] and fs = find_slot_sim [OF rel]
  show ?thesis
  proof (cases "node_find_slot nm key (make_hash (hf key))")
    case (Inl e)
    then show ?thesis unfolding flat_subscript_def node_subscript_def fs by simp
  next
    case (Inr pos)
    show ?thesis
    proof (cases "pos = n_capacity nm")
      case False
      from node_find_slot_loop_hit [OF Inr [unfolded node_find_slot_def] False]
      have p: "pos < length (n_table nm)" "\<not> node_is_empty (n_table nm ! pos)"
        "\<not> node_is_tombstone (n_table nm ! pos)" by simp_all
      from slot_rel_value [OF map_rel_nth [OF rel p(1)] p(2,3)] p(1) map_rel_length [OF rel]
      have "flat_deref fm pos = node_deref nm (node_value_ptr (ns_entry (n_table nm ! pos)))"
        by (simp add: flat_deref_def node_deref_def)
      with Inr False cap rel show ?thesis
        unfolding flat_subscript_def node_subscript_def fs by simp
    next
      case True
      from insert_sim [OF inv rel, of key dv]
      have "rel_sum (=) (\<lambda>(fm', p) (nm', q). map_rel fm' nm' \<and> flat_deref fm' p = node_deref nm' q)
         (case flat_insert hf fm key dv of Inl e \<Rightarrow> Inl e | Inr (m', p, inserted) \<Rightarrow> Inr (m', p))
         (case node_insert hf nm key dv of Inl e \<Rightarrow> Inl e | Inr (m', p, inserted) \<Rightarrow> Inr (m', p))"
        by (cases "flat_insert hf fm key dv"; cases "node_insert hf nm key dv") auto
      with Inr True cap show ?thesis
        unfolding flat_subscript_def node_subscript_def fs by simp
    qed
  qed
qed

lemma call_sim:
  assumes inv: "flat_inv hf fm" and rel: "map_rel fm nm"
  shows "rel_sum (=) map_rel (flat_call hf dv fm c) (node_call hf dv nm c)"
proof (cases c)
  case (Insert k v)
  from insert_sim [OF inv rel, of k v] show ?thesis
    unfolding Insert
    by (cases "flat_insert hf fm k v"; cases "node_insert hf nm k v") auto
next
  case (Erase k)
  from erase_sim [OF rel, of hf k] show ?thesis
    unfolding Erase
    by (cases "flat_erase hf fm k"; cases "node_erase hf nm k") auto
next
  case Clear
  with clear_sim [OF inv rel] show ?thesis by simp
next
  case (Subscript k)
  from subscript_sim [OF inv rel, of dv k] show ?thesis
    unfolding Subscript
    by (cases "flat_subscript hf dv fm k"; cases "node_subscript hf dv nm k") auto
next
  case (Find k)
  show ?thesis
    unfolding Find flat_call.simps node_call.simps flat_find_def node_find_def
      find_slot_sim [OF rel] map_rel_capacity [OF rel]
    using rel by (cases "node_find_slot nm k (make_hash (hf k))") auto
next
  case (Contains k)
  from find_sim(2) [OF rel, of hf k] show ?thesis
    unfolding Contains using rel
    by (cases "node_contains hf nm k") auto
qed

lemma run_sim:
  assumes "flat_inv hf fm" "map_rel fm nm"
  shows "rel_sum (=) map_rel (flat_run hf dv fm cs) (node_run hf dv nm cs)"
  using assms
proof (induction cs arbitrary: fm nm)
  case Nil
  then show ?case by simp
next
  case (Cons c cs)
  note sim = call_sim [OF Cons.prems, of dv c]
  show ?case
  proof (cases "flat_call hf dv fm c")
    case (Inl e)
    with sim have "node_call hf dv nm c = Inl e" by (cases "node_call hf dv nm c") simp_all
    with Inl show ?thesis by simp
  next
    case (Inr fm1)
    with sim obtain nm1 where nm1: "node_call hf dv nm c = Inr nm1" "map_rel fm1 nm1"
      by (cases "node_call hf dv nm c") simp_all
    from flat_call_inv [OF Cons.prems(1) Inr] have "flat_inv hf fm1" .
    from Cons.IH [OF this nm1(2)] Inr nm1(1) show ?thesis by simp
  qed
qed

lemma construct_sim: "rel_option map_rel (flat_construct c) (node_construct c)"
proof (cases c)
  case Default_ctor
  then show ?thesis
    by (simp add: FlatHashMap_def NodeHashMap_def map_rel_def list_all2_conv_all_nth slot_rel_fresh)
next
  case (Sized_ctor e)
  then show ?thesis
    by (simp add: FlatHashMap_sized_def NodeHashMap_sized_def map_rel_def list_all2_conv_all_nth
        slot_rel_fresh Let_def split: option.splits)
qed

text \<open>Every state of the indirect backend is related to a state of the inline backend.\<close>

lemma node_run_flat_run:
  fixes nm :: "('k, 'v) node_map"
  assumes c: "node_construct c = Some nm" and r: "node_run hf dv nm cs = Inr nm'"
  shows "\<exists>fm fm'. flat_construct c = Some fm \<and> flat_run hf dv fm cs = Inr fm'
           \<and> flat_inv hf fm' \<and> map_rel fm' nm'"
proof -
  have "rel_option (map_rel :: ('k, 'v) flat_map \<Rightarrow> ('k, 'v) node_map \<Rightarrow> bool)
          (flat_construct c) (node_construct c)"
    by (rule construct_sim)
  then have "rel_option map_rel (flat_construct c) (Some nm)"
    unfolding c .
  then obtain fm :: "('k, 'v) flat_map" where fm: "flat_construct c = Some fm" "map_rel fm nm"
    by (cases "flat_construct c :: ('k, 'v) flat_map option") auto
  from flat_construct_inv [OF fm(1)] have inv: "flat_inv hf fm" .
  from run_sim [OF inv fm(2), of dv cs] r obtain fm' where fm': "flat_run hf dv fm cs = Inr fm'"
    "map_rel fm' nm'" by (cases "flat_run hf dv fm cs") simp_all
  from flat_run_inv [OF inv fm'(1)] fm fm' show ?thesis by blast
qed


section \<open>Consequences of the invariant\<close>

lemma flat_card_keys:
  assumes inv: "flat_inv hf m"
  shows "finite {k. flat_contains hf m k = Inr True}"
    and "card {k. flat_contains hf m k = Inr True} = f_size m"
proof -
  let ?t = "f_table m"
  let ?S = "{p. p < length ?t \<and> flat_occupied (?t ! p)}"
  let ?f = "\<lambda>p. the (fs_key (?t ! p))"
  from inv have sl: "flat_slots_ok hf ?t" and kd: "flat_keys_distinct ?t"
    and sz: "f_size m = length (filter flat_occupied ?t)"
    by (simp_all add: flat_inv_def flat_wf_def flat_table_ok_def)
  have keys: "{k. flat_contains hf m k = Inr True} = fst ` flat_contents ?t"
    by (simp add: flat_contains_iff [OF inv])
  have img: "fst ` flat_contents ?t = ?f ` ?S"
  proof (intro set_eqI iffI)
    fix k assume "k \<in> fst ` flat_contents ?t"
    then obtain v where "(k, v) \<in> flat_contents ?t" by auto
    then obtain p where "p < length ?t" "flat_occupied (?t ! p)" "fs_key (?t ! p) = Some k"
      unfolding flat_contents_iff by blast
    then show "k \<in> ?f ` ?S" by force
  next
    fix k assume "k \<in> ?f ` ?S"
    then obtain p where p: "p < length ?t" "flat_occupied (?t ! p)" "k = ?f p" by auto
    with sl obtain k' v where "fs_key (?t ! p) = Some k'" "fs_value (?t ! p) = Some v"
      unfolding flat_slots_ok_iff by blast
    with p have "(k, v) \<in> flat_contents ?t" unfolding flat_contents_iff by auto
    then show "k \<in> fst ` flat_contents ?t" by force
  qed
  have inj: "inj_on ?f ?S"
  proof (rule inj_onI)
    fix p q assume p: "p \<in> ?S" and q: "q \<in> ?S" and e: "?f p = ?f q"
    from p sl obtain a where a: "fs_key (?t ! p) = Some a" unfolding flat_slots_ok_iff by blast
    from q sl obtain b where b: "fs_key (?t ! q) = Some b" unfolding flat_slots_ok_iff by blast
    from e a b have "fs_key (?t ! p) = fs_key (?t ! q)" by simp
    with p q kd show "p = q" unfolding flat_keys_distinct_def by blast
  qed
  have fin: "finite ?S" by simp
  show "finite {k. flat_contains hf m k = Inr True}"
    unfolding keys img using fin by (rule finite_imageI)
  have "card (?f ` ?S) = card ?S" using inj by (rule card_image)
  also have "\<dots> = length (filter flat_occupied ?t)"
    by (simp add: length_filter_conv_card)
  finally show "card {k. flat_contains hf m k = Inr True} = f_size m"
    unfolding keys img sz .
qed

lemma load_ratio_iff:
  assumes "0 < c"
  shows "rat_of_nat a / rat_of_nat c \<le> MAX_LOAD_FACTOR \<longleftrightarrow> 4 * a \<le> 3 * c"
  using load_exceeds_iff [of a c] assms by (auto simp: quotient_exceeds_def)

lemma tombstone_ratio_iff:
  assumes "0 < c"
  shows "rat_of_nat a / rat_of_nat c \<le> MAX_TOMBSTONE_RATIO \<longleftrightarrow> 4 * a \<le> c"
  using tombstones_exceed_iff [of a c] assms by (auto simp: quotient_exceeds_def)

lemma flat_insert_returns:
  assumes inv: "flat_inv hf m" and r: "flat_insert hf m k v = Inr (m', p, b)"
  shows "flat_inv hf m'" "0 < f_capacity m'" "4 * f_tombstone_count m' \<le> f_capacity m'"
    "4 * f_size m' \<le> 3 * f_capacity m'" "(k, v) \<in> flat_contents (f_table m')"
    "flat_deref m' p = Some v" "b \<longleftrightarrow> k \<notin> fst ` flat_contents (f_table m)"
    "f_size m' = f_size m + (if b then 1 else 0)"
proof -
  have c: "f_capacity m \<noteq> 0"
  proof
    assume "f_capacity m = 0"
    from flat_insert_zero [OF inv this, of k v] r show False by simp
  qed
  from flat_insert_spec [OF inv c, of k v] r
  have s: "flat_inv hf m'" "f_capacity m' \<noteq> 0"
     "flat_contents (f_table m') = insert (k, v) {(a, b) \<in> flat_contents (f_table m). a \<noteq> k}"
     "b \<longleftrightarrow> k \<notin> fst ` flat_contents (f_table m)"
     "f_size m' = f_size m + (if b then 1 else 0)"
     "4 * f_tombstone_count m' \<le> f_capacity m'"
     "p < f_capacity m'" "fs_value (f_table m' ! p) = Some v"
    by auto
  show "flat_inv hf m'" "0 < f_capacity m'" "4 * f_tombstone_count m' \<le> f_capacity m'"
    "b \<longleftrightarrow> k \<notin> fst ` flat_contents (f_table m)" "f_size m' = f_size m + (if b then 1 else 0)"
    using s by simp_all
  show "4 * f_size m' \<le> 3 * f_capacity m'" using s(1) by (simp add: flat_inv_def)
  show "(k, v) \<in> flat_contents (f_table m')" using s(3) by simp
  from s(1) have "length (f_table m') = f_capacity m'" by (simp add: flat_inv_def flat_wf_def)
  with s(7,8) show "flat_deref m' p = Some v" by (simp add: flat_deref_def)
qed

lemma flat_find_value_present:
  assumes inv: "flat_inv hf m" and kw: "(k, w) \<in> flat_contents (f_table m)"
  shows "flat_find_value hf m k = Inr (Some w)"
  using flat_find_present [OF inv kw] by (auto simp: flat_find_value_def)

text \<open>Inserting a key twice in a row: the second call updates.\<close>

lemma flat_insert_twice:
  assumes inv: "flat_inv hf m" and r: "flat_insert hf m k v1 = Inr (m1, p1, b1)"
  shows "\<exists>m2 p2. flat_insert hf m1 k v2 = Inr (m2, p2, False) \<and> flat_deref m2 p2 = Some v2
           \<and> flat_find_value hf m2 k = Inr (Some v2) \<and> f_size m2 = f_size m1"
proof -
  note a = flat_insert_returns [OF inv r]
  from a(2) have c: "f_capacity m1 \<noteq> 0" by simp
  from flat_insert_spec [OF a(1) c, of k v2]
  obtain m2 p2 ins where r2: "flat_insert hf m1 k v2 = Inr (m2, p2, ins)" by blast
  note b = flat_insert_returns [OF a(1) r2]
  from a(5) have "k \<in> fst ` flat_contents (f_table m1)" by force
  with b(7) have "\<not> ins" by simp
  with r2 b(6,8) flat_find_value_present [OF b(1) b(5)] show ?thesis by auto
qed

lemma flat_erase_returns:
  assumes inv: "flat_inv hf m" and r: "flat_erase hf m k = Inr (m', b)"
  shows "flat_inv hf m'" "f_size m' = 0 \<or> (0 < f_capacity m' \<and> 4 * f_tombstone_count m' \<le> f_capacity m')"
proof -
  from flat_erase_spec [OF inv, of k] r
  have s: "flat_inv hf m'" "f_size m' = 0 \<or> 4 * f_tombstone_count m' \<le> f_capacity m'"
    by auto
  show "flat_inv hf m'" by (rule s(1))
  from s(1) have "4 * f_size m' \<le> 3 * f_capacity m'" by (simp add: flat_inv_def)
  with s(2) show "f_size m' = 0 \<or> (0 < f_capacity m' \<and> 4 * f_tombstone_count m' \<le> f_capacity m')"
    by auto
qed

text \<open>Calls of the indirect backend, read back on the inline one.\<close>

lemma node_insert_flat_insert:
  assumes inv: "flat_inv hf fm" and rel: "map_rel fm nm"
    and r: "node_insert hf nm k v = Inr (nm', q, b)"
  shows "\<exists>fm' p. flat_insert hf fm k v = Inr (fm', p, b) \<and> map_rel fm' nm'
           \<and> flat_deref fm' p = node_deref nm' q"
  using insert_sim [OF inv rel, of k v] r
  by (cases "flat_insert hf fm k v") auto

lemma node_erase_flat_erase:
  assumes rel: "map_rel fm nm" and r: "node_erase hf nm k = Inr (nm', b)"
  shows "\<exists>fm'. flat_erase hf fm k = Inr (fm', b) \<and> map_rel fm' nm'"
  using erase_sim [OF rel, of hf k] r
  by (cases "flat_erase hf fm k") auto

section \<open>Looking up a key that no slot holds\<close>

text \<open>
  These lemmas need no invariant, only a table of \<open>capacity_\<close> slots: the probe then
  stays inside the table, and it can stop at no slot, since none holds the key.
\<close>

lemma and_nat_le: "(x::nat) AND y \<le> y"
proof -
  have "int x AND int y \<le> int y" by (rule AND_upper2) simp
  then have "int (x AND y) \<le> int y" by (simp add: of_nat_and_eq)
  then show ?thesis by simp
qed

lemma probe_in_table:
  assumes "0 < c"
  shows "probe c index i < c"
proof -
  have "probe c index i \<le> c - 1"
    unfolding probe_def size_t_dec_def using assms and_nat_le [of "index + i" "c - 1"] by simp
  with assms show ?thesis by simp
qed

lemma flat_find_slot_loop_not_stored:
  assumes len: "length (f_table m) = f_capacity m" and absent: "\<not> flat_stores m key"
  shows "flat_find_slot_loop m key hash index i = Inr (f_capacity m)"
proof (induction "f_capacity m - i" arbitrary: i)
  case 0
  then show ?case by (subst flat_find_slot_loop.simps) simp
next
  case (Suc d)
  let ?pos = "probe (f_capacity m) index i"
  from Suc.hyps(2) have i: "i < f_capacity m" by simp
  then have pos: "?pos < length (f_table m)" using probe_in_table [of "f_capacity m"] len by simp
  then have mem: "f_table m ! ?pos \<in> set (f_table m)" by (rule nth_mem)
  from Suc.hyps(2) have "d = f_capacity m - (i + 1)" by simp
  then have rec: "flat_find_slot_loop m key hash index (i + 1) = Inr (f_capacity m)"
    by (rule Suc.hyps(1))
  have no: "\<not> (\<not> flat_is_empty (f_table m ! ?pos) \<and> \<not> flat_is_tombstone (f_table m ! ?pos)
              \<and> fs_key (f_table m ! ?pos) = Some key)"
    using absent mem unfolding flat_stores_def flat_occupied_def by blast
  show ?case
    by (subst flat_find_slot_loop.simps) (use i pos rec no in \<open>auto simp: Let_def\<close>)
qed

lemma flat_erase_not_stored:
  assumes "length (f_table m) = f_capacity m" "\<not> flat_stores m key"
  shows "flat_erase hf m key = Inr (m, False)"
  unfolding flat_erase_def flat_find_slot_def flat_find_slot_loop_not_stored [OF assms]
  by simp

lemma node_find_slot_loop_not_stored:
  assumes len: "length (n_table m) = n_capacity m" and absent: "\<not> node_stores m key"
  shows "node_find_slot_loop m key hash index i = Inr (n_capacity m)"
proof (induction "n_capacity m - i" arbitrary: i)
  case 0
  then show ?case by (subst node_find_slot_loop.simps) simp
next
  case (Suc d)
  let ?pos = "probe (n_capacity m) index i"
  from Suc.hyps(2) have i: "i < n_capacity m" by simp
  then have pos: "?pos < length (n_table m)" using probe_in_table [of "n_capacity m"] len by simp
  then have mem: "n_table m ! ?pos \<in> set (n_table m)" by (rule nth_mem)
  from Suc.hyps(2) have "d = n_capacity m - (i + 1)" by simp
  then have rec: "node_find_slot_loop m key hash index (i + 1) = Inr (n_capacity m)"
    by (rule Suc.hyps(1))
  have no: "\<not> node_key_equals (n_entries m) (ns_entry (n_table m ! ?pos)) key"
    using absent mem unfolding node_stores_def by blast
  show ?case
    by (subst node_find_slot_loop.simps) (use i pos rec no in \<open>auto simp: Let_def\<close>)
qed

lemma node_erase_not_stored:
  assumes "length (n_table m) = n_capacity m" "\<not> node_stores m key"
  shows "node_erase hf m key = Inr (m, False)"
  unfolding node_erase_def node_find_slot_def node_find_slot_loop_not_stored [OF assms]
  by simp

text \<open>
  On the states that the constructors and the public calls produce, a key is stored
  exactly when \<open>contains\<close> answers true.
\<close>

lemma flat_contains_stores:
  assumes inv: "flat_inv hf m"
  shows "flat_contains hf m k = Inr (flat_stores m k)"
proof -
  from inv have sl: "flat_slots_ok hf (f_table m)"
    by (simp add: flat_inv_def flat_wf_def flat_table_ok_def)
  have "k \<in> fst ` flat_contents (f_table m) \<longleftrightarrow> flat_stores m k"
  proof
    assume "k \<in> fst ` flat_contents (f_table m)"
    then show "flat_stores m k" unfolding flat_contents_def flat_stores_def by auto
  next
    assume "flat_stores m k"
    then obtain s where s: "s \<in> set (f_table m)" "flat_occupied s" "fs_key s = Some k"
      unfolding flat_stores_def by blast
    with sl obtain v where "fs_value s = Some v" unfolding flat_slots_ok_def by fastforce
    with s have "(k, v) \<in> flat_contents (f_table m)" unfolding flat_contents_def by blast
    then show "k \<in> fst ` flat_contents (f_table m)" by force
  qed
  with flat_contains_iff [OF inv, of k] show ?thesis by simp
qed

lemma map_rel_stores:
  assumes rel: "map_rel fm nm"
  shows "flat_stores fm k \<longleftrightarrow> node_stores nm k"
proof
  assume "flat_stores fm k"
  then obtain s where s: "s \<in> set (f_table fm)" "flat_occupied s" "fs_key s = Some k"
    unfolding flat_stores_def by blast
  from s(1) obtain p where p: "p < length (f_table fm)" "f_table fm ! p = s"
    by (auto simp: in_set_conv_nth)
  with map_rel_length [OF rel] have pn: "p < length (n_table nm)" by simp
  note r = map_rel_nth [OF rel pn]
  from s(2) p(2) slot_rel_states [OF r]
  have st: "\<not> node_is_empty (n_table nm ! p)" "\<not> node_is_tombstone (n_table nm ! p)"
    by (simp_all add: flat_occupied_def)
  from slot_rel_key [OF r st, of k] s(3) p(2)
  have "node_key_equals (n_entries nm) (ns_entry (n_table nm ! p)) k" by simp
  with nth_mem [OF pn] show "node_stores nm k" unfolding node_stores_def by blast
next
  assume "node_stores nm k"
  then obtain s where s: "s \<in> set (n_table nm)" "node_key_equals (n_entries nm) (ns_entry s) k"
    unfolding node_stores_def by blast
  from s(1) obtain p where p: "p < length (n_table nm)" "n_table nm ! p = s"
    by (auto simp: in_set_conv_nth)
  with map_rel_length [OF rel] have pf: "p < length (f_table fm)" by simp
  note r = map_rel_nth [OF rel p(1)]
  from s(2) p(2)
  have st: "\<not> node_is_empty (n_table nm ! p)" "\<not> node_is_tombstone (n_table nm ! p)"
    by (auto simp: node_key_equals_def node_is_empty_def node_is_tombstone_def tombstone_ptr_def
        split: entry_ptr.splits)
  from slot_rel_key [OF r st, of k] s(2) p(2) have key: "fs_key (f_table fm ! p) = Some k" by simp
  from st slot_rel_states [OF r] have "flat_occupied (f_table fm ! p)"
    by (simp add: flat_occupied_def)
  with key nth_mem [OF pf] show "flat_stores fm k" unfolding flat_stores_def by blast
qed

lemma node_contains_stores:
  assumes inv: "flat_inv hf fm" and rel: "map_rel fm nm"
  shows "node_contains hf nm k = Inr (node_stores nm k)"
  using find_sim(2) [OF rel, of hf k] flat_contains_stores [OF inv, of k] map_rel_stores [OF rel, of k]
  by simp

text \<open>
  A moved-from \<open>NodeHashMap\<close> is not such a state: its table is empty while \<open>capacity_\<close>
  keeps its value, so every lookup indexes past the end of the vector.
\<close>

lemma node_moved_from_lookup:
  assumes "0 < n_capacity m"
  shows "node_erase hf (snd (node_move m)) k = Inl Out_of_range"
    and "node_contains hf (snd (node_move m)) k = Inl Out_of_range"
  unfolding node_erase_def node_contains_def node_find_def node_find_slot_def
  by (subst node_find_slot_loop.simps, simp add: node_move_def assms Let_def)+

section \<open>What a call returns on a state that satisfies the invariant\<close>

text \<open>
  \<open>insert\<close> returns unless the capacity is zero, and then it throws; the ratios it
  leaves behind are within their bounds.
\<close>

lemma flat_insert_ratios:
  assumes inv: "flat_inv hf m"
  shows "(flat_insert hf m k v = Inl Table_full \<and> f_capacity m = 0)
       \<or> (\<exists>m' p b. flat_insert hf m k v = Inr (m', p, b) \<and> 0 < f_capacity m'
            \<and> rat_of_nat (f_size m') / rat_of_nat (f_capacity m') \<le> MAX_LOAD_FACTOR
            \<and> rat_of_nat (f_tombstone_count m') / rat_of_nat (f_capacity m') \<le> MAX_TOMBSTONE_RATIO)"
proof (cases "f_capacity m = 0")
  case True
  with flat_insert_zero [OF inv True, of k v] show ?thesis by simp
next
  case False
  from flat_insert_spec [OF inv False, of k v]
  obtain m' p b where r: "flat_insert hf m k v = Inr (m', p, b)" by blast
  note a = flat_insert_returns [OF inv r]
  from a(2) a(4) have "rat_of_nat (f_size m') / rat_of_nat (f_capacity m') \<le> MAX_LOAD_FACTOR"
    by (simp only: load_ratio_iff)
  moreover from a(2) a(3)
  have "rat_of_nat (f_tombstone_count m') / rat_of_nat (f_capacity m') \<le> MAX_TOMBSTONE_RATIO"
    by (simp only: tombstone_ratio_iff)
  ultimately show ?thesis using r a(2) by blast
qed

lemma node_insert_ratios:
  assumes inv: "flat_inv hf fm" and rel: "map_rel fm nm"
  shows "(node_insert hf nm k v = Inl Table_full \<and> n_capacity nm = 0)
       \<or> (\<exists>m' p b. node_insert hf nm k v = Inr (m', p, b) \<and> 0 < n_capacity m'
            \<and> rat_of_nat (n_size m') / rat_of_nat (n_capacity m') \<le> MAX_LOAD_FACTOR
            \<and> rat_of_nat (n_tombstone_count m') / rat_of_nat (n_capacity m') \<le> MAX_TOMBSTONE_RATIO)"
proof -
  note sim = insert_sim [OF inv rel, of k v]
  from flat_insert_ratios [OF inv, of k v] show ?thesis
  proof
    assume a: "flat_insert hf fm k v = Inl Table_full \<and> f_capacity fm = 0"
    with sim have "node_insert hf nm k v = Inl Table_full"
      by (cases "node_insert hf nm k v") simp_all
    with a map_rel_capacity [OF rel] show ?thesis by simp
  next
    assume "\<exists>m' p b. flat_insert hf fm k v = Inr (m', p, b) \<and> 0 < f_capacity m'
            \<and> rat_of_nat (f_size m') / rat_of_nat (f_capacity m') \<le> MAX_LOAD_FACTOR
            \<and> rat_of_nat (f_tombstone_count m') / rat_of_nat (f_capacity m') \<le> MAX_TOMBSTONE_RATIO"
    then obtain fm' p b where f: "flat_insert hf fm k v = Inr (fm', p, b)" "0 < f_capacity fm'"
      "rat_of_nat (f_size fm') / rat_of_nat (f_capacity fm') \<le> MAX_LOAD_FACTOR"
      "rat_of_nat (f_tombstone_count fm') / rat_of_nat (f_capacity fm') \<le> MAX_TOMBSTONE_RATIO"
      by blast
    from sim f(1) obtain nm' q b' where n: "node_insert hf nm k v = Inr (nm', q, b')"
      "map_rel fm' nm'"
      by (cases "node_insert hf nm k v") auto
    from n(2) have eqs: "f_size fm' = n_size nm'" "f_capacity fm' = n_capacity nm'"
      "f_tombstone_count fm' = n_tombstone_count nm'"
      by (simp_all add: map_rel_def)
    from f(2-4) have "0 < n_capacity nm'"
      "rat_of_nat (n_size nm') / rat_of_nat (n_capacity nm') \<le> MAX_LOAD_FACTOR"
      "rat_of_nat (n_tombstone_count nm') / rat_of_nat (n_capacity nm') \<le> MAX_TOMBSTONE_RATIO"
      unfolding eqs by -
    with n(1) show ?thesis by blast
  qed
qed

text \<open>
  \<open>erase\<close> always returns. It compacts only while the map is not empty, so what it leaves
  behind is a tombstone ratio within the bound, or an empty map.
\<close>

lemma flat_erase_ratio:
  assumes inv: "flat_inv hf m"
  shows "\<exists>m' b. flat_erase hf m k = Inr (m', b)
           \<and> (f_size m' = 0
              \<or> (0 < f_capacity m'
                 \<and> rat_of_nat (f_tombstone_count m') / rat_of_nat (f_capacity m') \<le> MAX_TOMBSTONE_RATIO))"
proof -
  from flat_erase_spec [OF inv, of k]
  obtain m' b where r: "flat_erase hf m k = Inr (m', b)" by blast
  from flat_erase_returns(2) [OF inv r]
  have "f_size m' = 0
        \<or> (0 < f_capacity m'
           \<and> rat_of_nat (f_tombstone_count m') / rat_of_nat (f_capacity m') \<le> MAX_TOMBSTONE_RATIO)"
  proof
    assume "f_size m' = 0"
    then show ?thesis by (rule disjI1)
  next
    assume a: "0 < f_capacity m' \<and> 4 * f_tombstone_count m' \<le> f_capacity m'"
    then have "rat_of_nat (f_tombstone_count m') / rat_of_nat (f_capacity m') \<le> MAX_TOMBSTONE_RATIO"
      by (simp only: tombstone_ratio_iff)
    with a show ?thesis by blast
  qed
  with r show ?thesis by blast
qed

lemma node_erase_ratio:
  assumes inv: "flat_inv hf fm" and rel: "map_rel fm nm"
  shows "\<exists>m' b. node_erase hf nm k = Inr (m', b)
           \<and> (n_size m' = 0
              \<or> (0 < n_capacity m'
                 \<and> rat_of_nat (n_tombstone_count m') / rat_of_nat (n_capacity m') \<le> MAX_TOMBSTONE_RATIO))"
proof -
  from flat_erase_ratio [OF inv, of k]
  obtain fm' b where f: "flat_erase hf fm k = Inr (fm', b)"
    "f_size fm' = 0
     \<or> (0 < f_capacity fm'
        \<and> rat_of_nat (f_tombstone_count fm') / rat_of_nat (f_capacity fm') \<le> MAX_TOMBSTONE_RATIO)"
    by blast
  from erase_sim [OF rel, of hf k] f(1) obtain nm' b' where n: "node_erase hf nm k = Inr (nm', b')"
    "map_rel fm' nm'"
    by (cases "node_erase hf nm k") auto
  from n(2) have eqs: "f_size fm' = n_size nm'" "f_capacity fm' = n_capacity nm'"
    "f_tombstone_count fm' = n_tombstone_count nm'"
    by (simp_all add: map_rel_def)
  from f(2) have "n_size nm' = 0
     \<or> (0 < n_capacity nm'
        \<and> rat_of_nat (n_tombstone_count nm') / rat_of_nat (n_capacity nm') \<le> MAX_TOMBSTONE_RATIO)"
    unfolding eqs by -
  with n(1) show ?thesis by blast
qed

text \<open>Two inserts of one key in a row.\<close>

lemma flat_insert_insert:
  assumes inv: "flat_inv hf m"
  shows "(flat_insert hf m k v1 = Inl Table_full \<and> f_capacity m = 0)
       \<or> (\<exists>m1 p1 b1 m2 p2. flat_insert hf m k v1 = Inr (m1, p1, b1)
            \<and> flat_insert hf m1 k v2 = Inr (m2, p2, False) \<and> flat_deref m2 p2 = Some v2
            \<and> flat_find_value hf m2 k = Inr (Some v2) \<and> f_size m2 = f_size m1)"
proof (cases "f_capacity m = 0")
  case True
  with flat_insert_zero [OF inv True, of k v1] show ?thesis by simp
next
  case False
  from flat_insert_spec [OF inv False, of k v1]
  obtain m1 p1 b1 where r: "flat_insert hf m k v1 = Inr (m1, p1, b1)" by blast
  from flat_insert_twice [OF inv r, of v2] r show ?thesis by blast
qed

lemma node_insert_insert:
  assumes inv: "flat_inv hf fm" and rel: "map_rel fm nm"
  shows "(node_insert hf nm k v1 = Inl Table_full \<and> n_capacity nm = 0)
       \<or> (\<exists>m1 p1 b1 m2 p2. node_insert hf nm k v1 = Inr (m1, p1, b1)
            \<and> node_insert hf m1 k v2 = Inr (m2, p2, False) \<and> node_deref m2 p2 = Some v2
            \<and> node_find_value hf m2 k = Inr (Some v2) \<and> n_size m2 = n_size m1)"
proof -
  note sim = insert_sim [OF inv rel, of k v1]
  from flat_insert_insert [OF inv, of k v1 v2] show ?thesis
  proof
    assume a: "flat_insert hf fm k v1 = Inl Table_full \<and> f_capacity fm = 0"
    with sim have "node_insert hf nm k v1 = Inl Table_full"
      by (cases "node_insert hf nm k v1") simp_all
    with a map_rel_capacity [OF rel] show ?thesis by simp
  next
    assume "\<exists>m1 p1 b1 m2 p2. flat_insert hf fm k v1 = Inr (m1, p1, b1)
            \<and> flat_insert hf m1 k v2 = Inr (m2, p2, False) \<and> flat_deref m2 p2 = Some v2
            \<and> flat_find_value hf m2 k = Inr (Some v2) \<and> f_size m2 = f_size m1"
    then obtain fm1 p1 b1 fm2 p2 where f: "flat_insert hf fm k v1 = Inr (fm1, p1, b1)"
      "flat_insert hf fm1 k v2 = Inr (fm2, p2, False)" "flat_deref fm2 p2 = Some v2"
      "flat_find_value hf fm2 k = Inr (Some v2)" "f_size fm2 = f_size fm1"
      by blast
    from sim f(1) obtain nm1 q1 c1 where n1: "node_insert hf nm k v1 = Inr (nm1, q1, c1)"
      "map_rel fm1 nm1"
      by (cases "node_insert hf nm k v1") auto
    note inv1 = flat_insert_returns(1) [OF inv f(1)]
    from insert_sim [OF inv1 n1(2), of k v2] f(2)
    obtain nm2 q2 where n2: "node_insert hf nm1 k v2 = Inr (nm2, q2, False)"
      "map_rel fm2 nm2" "flat_deref fm2 p2 = node_deref nm2 q2"
      by (cases "node_insert hf nm1 k v2") auto
    from n2(3) f(3) have d: "node_deref nm2 q2 = Some v2" by simp
    from find_sim(1) [OF n2(2), of hf k] f(4) have fv: "node_find_value hf nm2 k = Inr (Some v2)"
      by simp
    from n1(2) n2(2) f(5) have sz: "n_size nm2 = n_size nm1" by (simp add: map_rel_def)
    from n1(1) n2(1) d fv sz show ?thesis by blast
  qed
qed

text \<open>The states that a constructor and a sequence of calls produce.\<close>

lemma flat_reachable_inv:
  assumes "flat_construct c = Some fm" "flat_run hf dv fm cs = Inr fm'"
  shows "flat_inv hf fm'"
  by (rule flat_run_inv [OF flat_construct_inv [OF assms(1)] assms(2)])

lemma reachable_table_length:
  fixes fm :: "('k, 'v) flat_map" and nm :: "('k, 'v) node_map"
  shows "flat_construct c = Some fm \<Longrightarrow> flat_run hf dv fm cs = Inr fm'
           \<Longrightarrow> length (f_table fm') = f_capacity fm'"
    and "node_construct c = Some nm \<Longrightarrow> node_run hf dv nm cs = Inr nm'
           \<Longrightarrow> length (n_table nm') = n_capacity nm'"
proof -
  assume "flat_construct c = Some fm" "flat_run hf dv fm cs = Inr fm'"
  from flat_reachable_inv [OF this] show "length (f_table fm') = f_capacity fm'"
    by (simp add: flat_inv_def flat_wf_def)
next
  assume a: "node_construct c = Some nm" "node_run hf dv nm cs = Inr nm'"
  from node_run_flat_run [OF a] obtain fm0 :: "('k, 'v) flat_map" and fm1
    where inv: "flat_inv hf fm1" and rel: "map_rel fm1 nm'" by blast
  from inv have "length (f_table fm1) = f_capacity fm1" by (simp add: flat_inv_def flat_wf_def)
  with map_rel_length [OF rel] map_rel_capacity [OF rel]
  show "length (n_table nm') = n_capacity nm'" by simp
qed

lemma reachable_contains_stores:
  fixes fm :: "('k, 'v) flat_map" and nm :: "('k, 'v) node_map"
  shows "flat_construct c = Some fm \<Longrightarrow> flat_run hf dv fm cs = Inr fm'
           \<Longrightarrow> flat_contains hf fm' k = Inr (flat_stores fm' k)"
    and "node_construct c = Some nm \<Longrightarrow> node_run hf dv nm cs = Inr nm'
           \<Longrightarrow> node_contains hf nm' k = Inr (node_stores nm' k)"
proof -
  assume "flat_construct c = Some fm" "flat_run hf dv fm cs = Inr fm'"
  from flat_reachable_inv [OF this] show "flat_contains hf fm' k = Inr (flat_stores fm' k)"
    by (rule flat_contains_stores)
next
  assume a: "node_construct c = Some nm" "node_run hf dv nm cs = Inr nm'"
  from node_run_flat_run [OF a] obtain fm0 :: "('k, 'v) flat_map" and fm1
    where inv: "flat_inv hf fm1" and rel: "map_rel fm1 nm'" by blast
  show "node_contains hf nm' k = Inr (node_stores nm' k)"
    by (rule node_contains_stores [OF inv rel])
qed

section \<open>Evaluating the embedding on concrete inputs\<close>

lemmas eval_shared = INITIAL_CAPACITY_def MAX_LOAD_FACTOR_def MAX_TOMBSTONE_RATIO_def
  EMPTY_HASH_def TOMBSTONE_HASH_def size_t_dec_def quotient_exceeds_def make_hash_def probe_def

lemmas eval_flat = FlatHashMap_def flat_Slot_def flat_is_empty_def flat_is_tombstone_def
  flat_destroy_slot_def flat_insert_internal_def flat_insert_internal_loop.simps flat_rehash_def
  flat_find_slot_def flat_find_slot_loop.simps flat_insert_def flat_insert_loop.simps
  flat_find_def flat_contains_def flat_erase_def flat_subscript_def flat_clear_def
  flat_deref_def flat_size_def flat_capacity_def

lemmas eval_node = NodeHashMap_def node_Slot_def node_is_empty_def node_is_tombstone_def
  tombstone_ptr_def node_key_equals_def node_insert_internal_def node_insert_internal_loop.simps
  node_rehash_def node_find_slot_def node_find_slot_loop.simps node_insert_def
  node_insert_loop.simps node_find_def node_contains_def node_erase_def node_subscript_def
  node_clear_def node_deref_def node_size_def node_capacity_def node_assign_value_def
  node_value_ptr_def

text \<open>
  Two sized constructions. \<open>Map(6)\<close> has capacity 8. \<open>Map(9 * 2 ^ 60)\<close> has capacity 0:
  \<open>9 * 2 ^ 60 / 0.75 = 3 * 2 ^ 62\<close> (both exact as doubles) lies above \<open>2 ^ 63\<close>, and
  \<open>next_power_of_2\<close> wraps around to 0 there.
\<close>

lemma floor_rat_divide_numeral: "\<lfloor>numeral a / numeral b :: rat\<rfloor> = numeral a div numeral b"
  by (metis floor_divide_of_int_eq of_int_numeral)

lemmas eval_binary64 = scaled_expected_size_def binary64_def round_half_even_def
  bit_length.simps MAX_LOAD_FACTOR_def floor_rat_divide_numeral Let_def

lemma scaled_expected_size_6: "scaled_expected_size 6 = Some 8"
  by (simp add: eval_binary64)

lemma next_power_of_2_8: "next_power_of_2 (word_of_nat 8) = 8"
  by (simp add: next_power_of_2_def)

lemma scaled_expected_size_wrap: "scaled_expected_size (9 * 2 ^ 60) = Some (3 * 2 ^ 62)"
  by (simp add: eval_binary64)

text \<open>
  Where the rounding shows: \<open>2 ^ 53 + 1\<close> is not a \<open>double\<close> and is converted to \<open>2 ^ 53\<close>,
  whose quotient by 0.75 is rounded down to an even number; \<open>3 * 2 ^ 61 + 1\<close> is converted
  to \<open>3 * 2 ^ 61\<close>, and the constructor asks for \<open>2 ^ 63\<close> slots.
\<close>

lemma scaled_expected_size_rounds:
  "scaled_expected_size (2 ^ 53 + 1) = Some 12009599006321322"
  "scaled_expected_size (3 * 2 ^ 61 + 1) = Some (2 ^ 63)"
  by (simp_all add: eval_binary64)

lemma next_power_of_2_wrap: "next_power_of_2 (word_of_nat (3 * 2 ^ 62)) = 0"
  by (simp add: next_power_of_2_def)

lemma flat_construct_6:
  "flat_construct (Sized_ctor 6)
     = Some \<lparr>f_table = replicate 8 flat_Slot, f_size = 0, f_capacity = 8, f_tombstone_count = 0\<rparr>"
  unfolding flat_construct.simps FlatHashMap_sized_def scaled_expected_size_6 option.case Let_def
    next_power_of_2_8
  by simp

lemma node_construct_6:
  "node_construct (Sized_ctor 6)
     = Some \<lparr>n_table = replicate 8 node_Slot, n_entries = [], n_size = 0, n_capacity = 8,
             n_tombstone_count = 0\<rparr>"
  unfolding node_construct.simps NodeHashMap_sized_def scaled_expected_size_6 option.case Let_def
    next_power_of_2_8
  by simp

lemma flat_construct_wrap:
  "flat_construct (Sized_ctor (9 * 2 ^ 60))
     = Some \<lparr>f_table = [], f_size = 0, f_capacity = 0, f_tombstone_count = 0\<rparr>"
  unfolding flat_construct.simps FlatHashMap_sized_def scaled_expected_size_wrap option.case Let_def
    next_power_of_2_wrap
  by simp

lemma node_construct_wrap:
  "node_construct (Sized_ctor (9 * 2 ^ 60))
     = Some \<lparr>n_table = [], n_entries = [], n_size = 0, n_capacity = 0, n_tombstone_count = 0\<rparr>"
  unfolding node_construct.simps NodeHashMap_sized_def scaled_expected_size_wrap option.case Let_def
    next_power_of_2_wrap
  by simp

section \<open>The claims\<close>

text \<open>
  C4 (the code departs from the claim on the indirect backend). After a move the source
  is to be empty. \<open>FlatHashMap\<close> resets the source's counters by hand; \<open>NodeHashMap\<close>
  defaults both move operations, which moves the two vectors and copies \<open>size_\<close>: the
  source of a one-element map still reports \<open>size() = 1\<close>, after move construction and
  after move assignment.
\<close>

theorem node_moved_from_keeps_size:
  "node_run id (0::nat) NodeHashMap [Insert (1::nat) 1]
     = Inr (projr (node_run id (0::nat) NodeHashMap [Insert (1::nat) 1]))
   \<and> node_size (snd (node_move (projr (node_run id (0::nat) NodeHashMap [Insert (1::nat) 1])))) = 1
   \<and> node_size (snd (node_move_assign NodeHashMap
         (projr (node_run id (0::nat) NodeHashMap [Insert (1::nat) 1])))) = 1
   \<and> n_table (snd (node_move (projr (node_run id (0::nat) NodeHashMap [Insert (1::nat) 1])))) = []"
  by (simp add: eval_shared eval_node node_move_def node_move_assign_def)

text \<open>The inline backend does leave its source empty, whatever the map.\<close>

lemma flat_moved_from_empty:
  "flat_size (snd (flat_move m)) = 0 \<and> flat_size (snd (flat_move_assign this m)) = 0
   \<and> flat_contains hf (snd (flat_move m)) k = Inr False
   \<and> flat_contains hf (snd (flat_move_assign this m)) k = Inr False"
  by (simp add: flat_move_def flat_move_assign_def flat_size_def flat_contains_def flat_find_def
      flat_find_slot_def flat_find_slot_loop.simps)

text \<open>
  C6. \<open>erase(k)\<close> of a key that no slot of the table holds returns \<open>false\<close> and returns
  the map it was given: table, size, capacity and tombstone count are the very same, and
  so is every later answer of \<open>contains\<close> and \<open>find\<close>. This needs no more of the map than a
  table of \<open>capacity_\<close> slots, in either backend. Every state that a constructor and a
  sequence of calls produce has such a table (\<open>reachable_table_length\<close>), and there a key
  is held by a slot exactly when \<open>contains\<close> answers true (\<open>reachable_contains_stores\<close>). So
  has a moved-from \<open>FlatHashMap\<close>. A moved-from \<open>NodeHashMap\<close> has not and is outside this
  theorem: its table is empty while \<open>capacity_\<close> is kept (the defect of C4), and \<open>erase\<close>
  indexes the empty vector (\<open>node_moved_from_lookup\<close>).
\<close>

theorem erase_absent_key_changes_nothing:
  "(length (f_table fm) = f_capacity fm \<longrightarrow> \<not> flat_stores fm k
      \<longrightarrow> flat_erase hf fm k = Inr (fm, False))
   \<and> (length (n_table nm) = n_capacity nm \<longrightarrow> \<not> node_stores nm k
      \<longrightarrow> node_erase hf nm k = Inr (nm, False))"
  using flat_erase_not_stored [of fm k hf] node_erase_not_stored [of nm k hf] by blast

theorem erase_absent_key_changes_nothing_witness:
  "length (f_table (projr (flat_run id (0::nat) FlatHashMap [Insert (2::nat) 20, Insert 18 30, Erase 2])))
     = f_capacity (projr (flat_run id (0::nat) FlatHashMap [Insert (2::nat) 20, Insert 18 30, Erase 2]))
   \<and> \<not> flat_stores (projr (flat_run id (0::nat) FlatHashMap
          [Insert (2::nat) 20, Insert 18 30, Erase 2])) 2
   \<and> flat_stores (projr (flat_run id (0::nat) FlatHashMap
          [Insert (2::nat) 20, Insert 18 30, Erase 2])) 18
   \<and> flat_erase id (projr (flat_run id (0::nat) FlatHashMap
          [Insert (2::nat) 20, Insert 18 30, Erase 2])) 2
     = Inr (projr (flat_run id (0::nat) FlatHashMap [Insert (2::nat) 20, Insert 18 30, Erase 2]), False)
   \<and> length (n_table (projr (node_run id (0::nat) NodeHashMap [Insert (2::nat) 20, Insert 18 30, Erase 2])))
     = n_capacity (projr (node_run id (0::nat) NodeHashMap [Insert (2::nat) 20, Insert 18 30, Erase 2]))
   \<and> \<not> node_stores (projr (node_run id (0::nat) NodeHashMap
          [Insert (2::nat) 20, Insert 18 30, Erase 2])) 2
   \<and> node_stores (projr (node_run id (0::nat) NodeHashMap
          [Insert (2::nat) 20, Insert 18 30, Erase 2])) 18
   \<and> node_erase id (projr (node_run id (0::nat) NodeHashMap
          [Insert (2::nat) 20, Insert 18 30, Erase 2])) 2
     = Inr (projr (node_run id (0::nat) NodeHashMap [Insert (2::nat) 20, Insert 18 30, Erase 2]), False)"
proof -
  let ?cs = "[Insert (2::nat) 20, Insert 18 (30::nat), Erase 2]"
  let ?fm = "projr (flat_run id (0::nat) FlatHashMap ?cs)"
  let ?nm = "projr (node_run id (0::nat) NodeHashMap ?cs)"
  have f0: "length (f_table ?fm) = f_capacity ?fm" by code_simp
  have f1: "\<not> flat_stores ?fm 2" by code_simp
  have f2: "flat_stores ?fm 18" by code_simp
  have n0: "length (n_table ?nm) = n_capacity ?nm" by code_simp
  have n1: "\<not> node_stores ?nm 2" by code_simp
  have n2: "node_stores ?nm 18" by code_simp
  note t = erase_absent_key_changes_nothing [where fm = ?fm and nm = ?nm and k = 2 and hf = id]
  note f3 = t [THEN conjunct1, THEN mp, OF f0, THEN mp, OF f1]
  note n3 = t [THEN conjunct2, THEN mp, OF n0, THEN mp, OF n1]
  show ?thesis
    by (intro conjI) (fact f0 f1 f2 f3 n0 n1 n2 n3)+
qed

text \<open>
  C8 (the code departs from the claim). The claim holds for every map that has a table:
  \<open>flat_insert_spec\<close> above shows that \<open>insert\<close> returns whenever the invariant holds and
  the capacity is not zero. The sized constructor, however, can produce capacity zero:
  \<open>next_power_of_2\<close> wraps around for arguments above \<open>2 ^ 63\<close>. On such a freshly
  constructed map the very first \<open>insert\<close> rehashes into \<open>0 * 2 = 0\<close> slots, probes
  nothing, and throws "Hash table is full", in both backends.
\<close>

theorem insert_on_wrapped_capacity_is_table_full:
  "flat_construct (Sized_ctor (9 * 2 ^ 60))
     = Some \<lparr>f_table = [], f_size = 0, f_capacity = 0, f_tombstone_count = 0\<rparr>
   \<and> flat_insert id \<lparr>f_table = [], f_size = 0, f_capacity = 0, f_tombstone_count = 0\<rparr>
        (1::nat) (1::nat) = Inl Table_full
   \<and> node_construct (Sized_ctor (9 * 2 ^ 60))
     = Some \<lparr>n_table = [], n_entries = [], n_size = 0, n_capacity = 0, n_tombstone_count = 0\<rparr>
   \<and> node_insert id \<lparr>n_table = [], n_entries = [], n_size = 0, n_capacity = 0,
        n_tombstone_count = 0\<rparr> (1::nat) (1::nat) = Inl Table_full"
proof -
  have "flat_insert id \<lparr>f_table = [], f_size = 0, f_capacity = 0, f_tombstone_count = 0\<rparr>
        (1::nat) (1::nat) = Inl Table_full"
    by (simp add: eval_shared eval_flat)
  moreover have "node_insert id \<lparr>n_table = [], n_entries = [], n_size = 0, n_capacity = 0,
        n_tombstone_count = 0\<rparr> (1::nat) (1::nat) = Inl Table_full"
    by (simp add: eval_shared eval_node)
  ultimately show ?thesis
    using flat_construct_wrap node_construct_wrap by blast
qed

text \<open>
  C9 (amended). With capacity 8 and identity hashing, keys 8 and 16 have home slot 0,
  but key 0 has not: its hash 0 is the EMPTY sentinel, \<open>make_hash\<close> remaps it to 2, and
  its home slot is 2. So the claim that all three keys share home slot 0 is false.
\<close>

theorem key_zero_home_slot_counterexample:
  "\<not> (make_hash (id 0) AND size_t_dec 8 = 0
      \<and> make_hash (id 8) AND size_t_dec 8 = 0
      \<and> make_hash (id 16) AND size_t_dec 8 = 0)"
  by (simp add: eval_shared)

text \<open>
  What holds: on a map of capacity 8 (as \<open>Map(6)\<close> constructs it), after inserting 0, 8
  and 16 in that order and erasing 8, \<open>contains(0)\<close> and \<open>contains(16)\<close> are true and
  \<open>contains(8)\<close> is false. Keys 8 and 16 collide in home slot 0 and key 0 lives in slot 2;
  after the erase slot 0 is a tombstone and key 16 sits behind it in slot 1, so the probe
  for 16 does pass the tombstone. The same holds in the indirect backend.
\<close>

theorem tombstone_skipped_on_collision:
  "flat_capacity (the (flat_construct (Sized_ctor 6))) = 8
   \<and> make_hash (id 0) AND size_t_dec 8 = 2
   \<and> make_hash (id 8) AND size_t_dec 8 = 0
   \<and> make_hash (id 16) AND size_t_dec 8 = 0
   \<and> flat_run id (0::nat) (the (flat_construct (Sized_ctor 6)))
        [Insert (0::nat) 0, Insert 8 8, Insert 16 16, Erase 8]
      = Inr (projr (flat_run id (0::nat) (the (flat_construct (Sized_ctor 6)))
        [Insert (0::nat) 0, Insert 8 8, Insert 16 16, Erase 8]))
   \<and> flat_contains id (projr (flat_run id (0::nat) (the (flat_construct (Sized_ctor 6)))
        [Insert (0::nat) 0, Insert 8 8, Insert 16 16, Erase 8])) 0 = Inr True
   \<and> flat_contains id (projr (flat_run id (0::nat) (the (flat_construct (Sized_ctor 6)))
        [Insert (0::nat) 0, Insert 8 8, Insert 16 16, Erase 8])) 8 = Inr False
   \<and> flat_contains id (projr (flat_run id (0::nat) (the (flat_construct (Sized_ctor 6)))
        [Insert (0::nat) 0, Insert 8 8, Insert 16 16, Erase 8])) 16 = Inr True
   \<and> flat_is_tombstone (f_table (projr (flat_run id (0::nat) (the (flat_construct (Sized_ctor 6)))
        [Insert (0::nat) 0, Insert 8 8, Insert 16 16, Erase 8])) ! 0)
   \<and> fs_key (f_table (projr (flat_run id (0::nat) (the (flat_construct (Sized_ctor 6)))
        [Insert (0::nat) 0, Insert 8 8, Insert 16 16, Erase 8])) ! 1) = Some 16
   \<and> node_capacity (the (node_construct (Sized_ctor 6))) = 8
   \<and> node_run id (0::nat) (the (node_construct (Sized_ctor 6)))
        [Insert (0::nat) 0, Insert 8 8, Insert 16 16, Erase 8]
      = Inr (projr (node_run id (0::nat) (the (node_construct (Sized_ctor 6)))
        [Insert (0::nat) 0, Insert 8 8, Insert 16 16, Erase 8]))
   \<and> node_contains id (projr (node_run id (0::nat) (the (node_construct (Sized_ctor 6)))
        [Insert (0::nat) 0, Insert 8 8, Insert 16 16, Erase 8])) 0 = Inr True
   \<and> node_contains id (projr (node_run id (0::nat) (the (node_construct (Sized_ctor 6)))
        [Insert (0::nat) 0, Insert 8 8, Insert 16 16, Erase 8])) 8 = Inr False
   \<and> node_contains id (projr (node_run id (0::nat) (the (node_construct (Sized_ctor 6)))
        [Insert (0::nat) 0, Insert 8 8, Insert 16 16, Erase 8])) 16 = Inr True
   \<and> node_is_tombstone (n_table (projr (node_run id (0::nat) (the (node_construct (Sized_ctor 6)))
        [Insert (0::nat) 0, Insert 8 8, Insert 16 16, Erase 8])) ! 0)"
  unfolding flat_construct_6 node_construct_6 option.sel
  by code_simp

text \<open>
  C10. In both backends an \<open>insert\<close> that only updates can double the capacity: the
  rehash check runs before the key is looked up. A default-constructed map holding the
  twelve keys 2 to 13 has capacity 16; \<open>insert(2, 7)\<close> finds \<open>(12 + 1) / 16 > 0.75\<close>,
  rehashes into 32 slots, then finds key 2 and overwrites its value, returning
  \<open>inserted = false\<close>.
\<close>

theorem update_insert_can_double_capacity:
  "(\<exists>cs k v fm fm' p.
      flat_run id (0::nat) FlatHashMap cs = Inr fm
      \<and> flat_contains id fm (k::nat) = Inr True
      \<and> flat_insert id fm k v = Inr (fm', p, False)
      \<and> flat_capacity fm' = 2 * flat_capacity fm)
   \<and> (\<exists>cs k v nm nm' p.
      node_run id (0::nat) NodeHashMap cs = Inr nm
      \<and> node_contains id nm (k::nat) = Inr True
      \<and> node_insert id nm k v = Inr (nm', p, False)
      \<and> node_capacity nm' = 2 * node_capacity nm)"
proof -
  let ?cs = "[Insert 2 0, Insert 3 0, Insert 4 0, Insert 5 0, Insert 6 0, Insert 7 0,
           Insert 8 0, Insert 9 0, Insert 10 0, Insert 11 0, Insert 12 0, Insert (13::nat) (0::nat)]"
  let ?fr = "flat_run id (0::nat) FlatHashMap ?cs"
  let ?fi = "flat_insert id (projr ?fr) 2 7"
  let ?nr = "node_run id (0::nat) NodeHashMap ?cs"
  let ?ni = "node_insert id (projr ?nr) 2 7"
  have a: "?fr = Inr (projr ?fr)" by code_simp
  have b: "flat_contains id (projr ?fr) 2 = Inr True" by code_simp
  have c: "?fi = Inr (fst (projr ?fi), fst (snd (projr ?fi)), False)" by code_simp
  have d: "flat_capacity (fst (projr ?fi)) = 2 * flat_capacity (projr ?fr)" by code_simp
  have a': "?nr = Inr (projr ?nr)" by code_simp
  have b': "node_contains id (projr ?nr) 2 = Inr True" by code_simp
  have c': "?ni = Inr (fst (projr ?ni), fst (snd (projr ?ni)), False)" by code_simp
  have d': "node_capacity (fst (projr ?ni)) = 2 * node_capacity (projr ?nr)" by code_simp
  from a b c d have "\<exists>cs k v fm fm' p.
      flat_run id (0::nat) FlatHashMap cs = Inr fm
      \<and> flat_contains id fm (k::nat) = Inr True
      \<and> flat_insert id fm k v = Inr (fm', p, False)
      \<and> flat_capacity fm' = 2 * flat_capacity fm" by blast
  moreover from a' b' c' d' have "\<exists>cs k v nm nm' p.
      node_run id (0::nat) NodeHashMap cs = Inr nm
      \<and> node_contains id nm (k::nat) = Inr True
      \<and> node_insert id nm k v = Inr (nm', p, False)
      \<and> node_capacity nm' = 2 * node_capacity nm" by blast
  ultimately show ?thesis by blast
qed

text \<open>
  C1. After any sequence of calls (\<open>insert\<close>, \<open>erase\<close>, \<open>clear\<close>, \<open>operator[]\<close>, \<open>find\<close>,
  \<open>contains\<close>) on a map that either constructor has built, the keys for which \<open>contains\<close>
  answers true are finitely many and \<open>size()\<close> is their number, in both backends. The
  hash function \<open>hf\<close> is arbitrary: a function of HOL is deterministic and gives equal
  keys equal hashes.
\<close>

theorem size_counts_contained_keys:
  fixes fm :: "('k, 'v) flat_map" and nm :: "('k, 'v) node_map"
  shows "(flat_construct c = Some fm \<longrightarrow> flat_run hf dv fm cs = Inr fm' \<longrightarrow>
            finite {k. flat_contains hf fm' k = Inr True}
            \<and> card {k. flat_contains hf fm' k = Inr True} = flat_size fm')
       \<and> (node_construct c = Some nm \<longrightarrow> node_run hf dv nm cs = Inr nm' \<longrightarrow>
            finite {k. node_contains hf nm' k = Inr True}
            \<and> card {k. node_contains hf nm' k = Inr True} = node_size nm')"
proof (intro conjI impI)
  assume a: "flat_construct c = Some fm" "flat_run hf dv fm cs = Inr fm'"
  have inv: "flat_inv hf fm'"
    by (rule flat_reachable_inv [OF a])
  show "finite {k. flat_contains hf fm' k = Inr True}"
    by (rule flat_card_keys(1) [OF inv])
  show "card {k. flat_contains hf fm' k = Inr True} = flat_size fm'"
    unfolding flat_size_def by (rule flat_card_keys(2) [OF inv])
next
  assume a: "node_construct c = Some nm" "node_run hf dv nm cs = Inr nm'"
  from node_run_flat_run [OF a] obtain fm0 :: "('k, 'v) flat_map" and fm1
    where inv: "flat_inv hf fm1" and rel: "map_rel fm1 nm'" by blast
  have "node_contains hf nm' k = flat_contains hf fm1 k" for k
    by (rule find_sim(2) [OF rel, symmetric])
  then have keys: "{k. node_contains hf nm' k = Inr True} = {k. flat_contains hf fm1 k = Inr True}"
    by simp
  from rel have sz: "node_size nm' = f_size fm1" by (simp add: map_rel_def node_size_def)
  show "finite {k. node_contains hf nm' k = Inr True}"
    unfolding keys by (rule flat_card_keys(1) [OF inv])
  show "card {k. node_contains hf nm' k = Inr True} = node_size nm'"
    unfolding keys sz by (rule flat_card_keys(2) [OF inv])
qed

theorem size_counts_contained_keys_witness:
  "flat_construct Default_ctor = Some (FlatHashMap :: (nat, nat) flat_map)
   \<and> flat_run id (0::nat) FlatHashMap
        [Insert (2::nat) 20, Insert 18 30, Erase 2]
      = Inr (projr (flat_run id (0::nat) FlatHashMap
        [Insert (2::nat) 20, Insert 18 30, Erase 2]))
   \<and> card {k. flat_contains id (projr (flat_run id (0::nat) FlatHashMap
        [Insert (2::nat) 20, Insert 18 30, Erase 2])) k = Inr True}
      = flat_size (projr (flat_run id (0::nat) FlatHashMap
        [Insert (2::nat) 20, Insert 18 30, Erase 2]))
   \<and> flat_size (projr (flat_run id (0::nat) FlatHashMap
        [Insert (2::nat) 20, Insert 18 30, Erase 2])) = 1
   \<and> node_construct Default_ctor = Some (NodeHashMap :: (nat, nat) node_map)
   \<and> node_run id (0::nat) NodeHashMap
        [Insert (2::nat) 20, Insert 18 30, Erase 2]
      = Inr (projr (node_run id (0::nat) NodeHashMap
        [Insert (2::nat) 20, Insert 18 30, Erase 2]))
   \<and> card {k. node_contains id (projr (node_run id (0::nat) NodeHashMap
        [Insert (2::nat) 20, Insert 18 30, Erase 2])) k = Inr True}
      = node_size (projr (node_run id (0::nat) NodeHashMap
        [Insert (2::nat) 20, Insert 18 30, Erase 2]))
   \<and> node_size (projr (node_run id (0::nat) NodeHashMap
        [Insert (2::nat) 20, Insert 18 30, Erase 2])) = 1"
proof -
  let ?cs = "[Insert (2::nat) 20, Insert 18 (30::nat), Erase 2]"
  let ?fm = "projr (flat_run id (0::nat) FlatHashMap ?cs)"
  let ?nm = "projr (node_run id (0::nat) NodeHashMap ?cs)"
  have f0: "flat_construct Default_ctor = Some (FlatHashMap :: (nat, nat) flat_map)" by simp
  have n0: "node_construct Default_ctor = Some (NodeHashMap :: (nat, nat) node_map)" by simp
  have f1: "flat_run id (0::nat) FlatHashMap ?cs = Inr ?fm" by code_simp
  have n1: "node_run id (0::nat) NodeHashMap ?cs = Inr ?nm" by code_simp
  have f2: "flat_size ?fm = 1" by code_simp
  have n2: "node_size ?nm = 1" by code_simp
  note t = size_counts_contained_keys [where c = Default_ctor and fm = FlatHashMap and hf = id
      and dv = 0 and cs = ?cs and fm' = ?fm and nm = NodeHashMap and nm' = ?nm]
  note f3 = t [THEN conjunct1, THEN mp, OF f0, THEN mp, OF f1, THEN conjunct2]
  note n3 = t [THEN conjunct2, THEN mp, OF n0, THEN mp, OF n1, THEN conjunct2]
  show ?thesis
    by (intro conjI) (fact f0 f1 f2 f3 n0 n1 n2 n3)+
qed

text \<open>
  C2. Built by the same constructor call and driven by the same sequence of calls, the
  two backends either both throw the same exception or both return, and then \<open>size()\<close>,
  \<open>contains(k)\<close> and \<open>find(k)\<close> (found or not, and the value found) agree for every key.
  As the sequence is arbitrary, this holds after every step of a run.
\<close>

theorem backends_give_equal_answers:
  fixes fm :: "('k, 'v) flat_map" and nm :: "('k, 'v) node_map"
  shows "flat_construct c = Some fm \<longrightarrow> node_construct c = Some nm \<longrightarrow>
           (\<exists>e. flat_run hf dv fm cs = Inl e \<and> node_run hf dv nm cs = Inl e)
         \<or> (\<exists>fm' nm'. flat_run hf dv fm cs = Inr fm' \<and> node_run hf dv nm cs = Inr nm'
               \<and> flat_size fm' = node_size nm'
               \<and> (\<forall>k. flat_contains hf fm' k = node_contains hf nm' k
                      \<and> flat_find_value hf fm' k = node_find_value hf nm' k))"
proof (intro impI)
  assume f: "flat_construct c = Some fm" and n: "node_construct c = Some nm"
  have "rel_option (map_rel :: ('k, 'v) flat_map \<Rightarrow> ('k, 'v) node_map \<Rightarrow> bool)
          (flat_construct c) (node_construct c)"
    by (rule construct_sim)
  then have rel: "map_rel fm nm" unfolding f n by simp
  note inv = flat_construct_inv [OF f, of hf]
  note sim = run_sim [OF inv rel, of dv cs]
  show "(\<exists>e. flat_run hf dv fm cs = Inl e \<and> node_run hf dv nm cs = Inl e)
         \<or> (\<exists>fm' nm'. flat_run hf dv fm cs = Inr fm' \<and> node_run hf dv nm cs = Inr nm'
               \<and> flat_size fm' = node_size nm'
               \<and> (\<forall>k. flat_contains hf fm' k = node_contains hf nm' k
                      \<and> flat_find_value hf fm' k = node_find_value hf nm' k))"
  proof (cases "flat_run hf dv fm cs")
    case (Inl e)
    with sim have "node_run hf dv nm cs = Inl e"
      by (cases "node_run hf dv nm cs") simp_all
    with Inl show ?thesis by blast
  next
    case (Inr fm')
    with sim obtain nm' where nm': "node_run hf dv nm cs = Inr nm'" "map_rel fm' nm'"
      by (cases "node_run hf dv nm cs") simp_all
    from nm'(2) have sz: "flat_size fm' = node_size nm'"
      by (simp add: map_rel_def flat_size_def node_size_def)
    have "flat_contains hf fm' k = node_contains hf nm' k
            \<and> flat_find_value hf fm' k = node_find_value hf nm' k" for k
      using find_sim [OF nm'(2), of hf k] by (intro conjI)
    with Inr nm'(1) sz show ?thesis by blast
  qed
qed

theorem backends_give_equal_answers_witness:
  "flat_construct Default_ctor = Some (FlatHashMap :: (nat, nat) flat_map)
   \<and> node_construct Default_ctor = Some (NodeHashMap :: (nat, nat) node_map)
   \<and> flat_run id (0::nat) FlatHashMap [Insert (2::nat) 20, Subscript 18, Erase 2]
      = Inr (projr (flat_run id (0::nat) FlatHashMap [Insert (2::nat) 20, Subscript 18, Erase 2]))
   \<and> (\<exists>fm' nm'.
         flat_run id (0::nat) FlatHashMap [Insert (2::nat) 20, Subscript 18, Erase 2] = Inr fm'
         \<and> node_run id (0::nat) NodeHashMap [Insert (2::nat) 20, Subscript 18, Erase 2] = Inr nm'
         \<and> flat_size fm' = node_size nm'
         \<and> (\<forall>k. flat_contains id fm' k = node_contains id nm' k
                \<and> flat_find_value id fm' k = node_find_value id nm' k))"
proof -
  let ?cs = "[Insert (2::nat) 20, Subscript 18, Erase 2]"
  let ?fr = "flat_run id (0::nat) FlatHashMap ?cs"
  have f0: "flat_construct Default_ctor = Some (FlatHashMap :: (nat, nat) flat_map)" by simp
  have n0: "node_construct Default_ctor = Some (NodeHashMap :: (nat, nat) node_map)" by simp
  have f1: "?fr = Inr (projr ?fr)" by code_simp
  have no: "?fr \<noteq> Inl e" for e
    by (subst f1) (rule sum.distinct(2))
  note t = backends_give_equal_answers [where c = Default_ctor and fm = FlatHashMap
      and nm = NodeHashMap and hf = id and dv = 0 and cs = ?cs]
  from t [THEN mp, OF f0, THEN mp, OF n0]
  have f2: "\<exists>fm' nm'. ?fr = Inr fm'
         \<and> node_run id (0::nat) NodeHashMap ?cs = Inr nm'
         \<and> flat_size fm' = node_size nm'
         \<and> (\<forall>k. flat_contains id fm' k = node_contains id nm' k
                \<and> flat_find_value id fm' k = node_find_value id nm' k)"
  proof (rule disjE)
    assume "\<exists>e. ?fr = Inl e \<and> node_run id (0::nat) NodeHashMap ?cs = Inl e"
    then obtain e where "?fr = Inl e" by (elim exE conjE)
    with no [of e] show ?thesis by (rule notE)
  qed
  show ?thesis
    by (intro conjI) (fact f0 n0 f1 f2)+
qed

text \<open>
  C3 (amended). The claim fails after an \<open>erase\<close> that empties the map: \<open>erase\<close> compacts
  only \<open>if (tombstone_ratio > MAX_TOMBSTONE_RATIO && size_ > 0)\<close>. A default-constructed
  map into which five keys are inserted and then erased has, after the last \<open>erase\<close>,
  five tombstones in sixteen slots and no key: the ratio is \<open>5 / 16 > 0.25\<close>.
\<close>

theorem erase_to_empty_keeps_tombstones:
  "flat_run id (0::nat) FlatHashMap
       [Insert (2::nat) 0, Insert 3 0, Insert 4 0, Insert 5 0, Insert 6 0,
        Erase 2, Erase 3, Erase 4, Erase 5, Erase 6]
     = Inr (projr (flat_run id (0::nat) FlatHashMap
       [Insert (2::nat) 0, Insert 3 0, Insert 4 0, Insert 5 0, Insert 6 0,
        Erase 2, Erase 3, Erase 4, Erase 5, Erase 6]))
   \<and> flat_size (projr (flat_run id (0::nat) FlatHashMap
       [Insert (2::nat) 0, Insert 3 0, Insert 4 0, Insert 5 0, Insert 6 0,
        Erase 2, Erase 3, Erase 4, Erase 5, Erase 6])) = 0
   \<and> \<not> rat_of_nat (f_tombstone_count (projr (flat_run id (0::nat) FlatHashMap
       [Insert (2::nat) 0, Insert 3 0, Insert 4 0, Insert 5 0, Insert 6 0,
        Erase 2, Erase 3, Erase 4, Erase 5, Erase 6])))
       / rat_of_nat (flat_capacity (projr (flat_run id (0::nat) FlatHashMap
       [Insert (2::nat) 0, Insert 3 0, Insert 4 0, Insert 5 0, Insert 6 0,
        Erase 2, Erase 3, Erase 4, Erase 5, Erase 6]))) \<le> MAX_TOMBSTONE_RATIO
   \<and> node_run id (0::nat) NodeHashMap
       [Insert (2::nat) 0, Insert 3 0, Insert 4 0, Insert 5 0, Insert 6 0,
        Erase 2, Erase 3, Erase 4, Erase 5, Erase 6]
     = Inr (projr (node_run id (0::nat) NodeHashMap
       [Insert (2::nat) 0, Insert 3 0, Insert 4 0, Insert 5 0, Insert 6 0,
        Erase 2, Erase 3, Erase 4, Erase 5, Erase 6]))
   \<and> node_size (projr (node_run id (0::nat) NodeHashMap
       [Insert (2::nat) 0, Insert 3 0, Insert 4 0, Insert 5 0, Insert 6 0,
        Erase 2, Erase 3, Erase 4, Erase 5, Erase 6])) = 0
   \<and> \<not> rat_of_nat (n_tombstone_count (projr (node_run id (0::nat) NodeHashMap
       [Insert (2::nat) 0, Insert 3 0, Insert 4 0, Insert 5 0, Insert 6 0,
        Erase 2, Erase 3, Erase 4, Erase 5, Erase 6])))
       / rat_of_nat (node_capacity (projr (node_run id (0::nat) NodeHashMap
       [Insert (2::nat) 0, Insert 3 0, Insert 4 0, Insert 5 0, Insert 6 0,
        Erase 2, Erase 3, Erase 4, Erase 5, Erase 6]))) \<le> MAX_TOMBSTONE_RATIO"
proof -
  let ?cs = "[Insert (2::nat) (0::nat), Insert 3 0, Insert 4 0, Insert 5 0, Insert 6 0,
        Erase 2, Erase 3, Erase 4, Erase 5, Erase 6]"
  let ?fm = "projr (flat_run id (0::nat) FlatHashMap ?cs)"
  let ?nm = "projr (node_run id (0::nat) NodeHashMap ?cs)"
  have f1: "flat_run id (0::nat) FlatHashMap ?cs = Inr ?fm" by code_simp
  have f2: "flat_size ?fm = 0" by code_simp
  have f3: "f_tombstone_count ?fm = 5" by code_simp
  have f4: "flat_capacity ?fm = 16" by code_simp
  have f5: "\<not> rat_of_nat (f_tombstone_count ?fm) / rat_of_nat (flat_capacity ?fm)
              \<le> MAX_TOMBSTONE_RATIO"
    unfolding f3 f4 by (simp add: MAX_TOMBSTONE_RATIO_def)
  have n1: "node_run id (0::nat) NodeHashMap ?cs = Inr ?nm" by code_simp
  have n2: "node_size ?nm = 0" by code_simp
  have n3: "n_tombstone_count ?nm = 5" by code_simp
  have n4: "node_capacity ?nm = 16" by code_simp
  have n5: "\<not> rat_of_nat (n_tombstone_count ?nm) / rat_of_nat (node_capacity ?nm)
              \<le> MAX_TOMBSTONE_RATIO"
    unfolding n3 n4 by (simp add: MAX_TOMBSTONE_RATIO_def)
  show ?thesis
    by (intro conjI) (fact f1 f2 f5 n1 n2 n5)+
qed

text \<open>
  What holds, on every state that a constructor and a sequence of calls produce, in both
  backends: an \<open>insert\<close> that returns leaves \<open>tombstone_count / capacity \<le> 0.25\<close> (and
  \<open>insert\<close> returns unless the capacity is zero, when it throws); an \<open>erase\<close> returns and
  leaves \<open>tombstone_count / capacity \<le> 0.25\<close> or \<open>size() = 0\<close>.
\<close>

theorem tombstone_ratio_bounded_unless_empty:
  fixes fm :: "('k, 'v) flat_map" and nm :: "('k, 'v) node_map"
  shows "(flat_construct c = Some fm \<longrightarrow> flat_run hf dv fm cs = Inr fm1 \<longrightarrow>
            ((flat_insert hf fm1 k v = Inl Table_full \<and> flat_capacity fm1 = 0)
             \<or> (\<exists>fm2 p b. flat_insert hf fm1 k v = Inr (fm2, p, b) \<and> 0 < flat_capacity fm2
                  \<and> rat_of_nat (f_tombstone_count fm2) / rat_of_nat (flat_capacity fm2)
                      \<le> MAX_TOMBSTONE_RATIO))
            \<and> (\<exists>fm2 b. flat_erase hf fm1 k = Inr (fm2, b)
                  \<and> (flat_size fm2 = 0
                     \<or> (0 < flat_capacity fm2
                        \<and> rat_of_nat (f_tombstone_count fm2) / rat_of_nat (flat_capacity fm2)
                            \<le> MAX_TOMBSTONE_RATIO))))
       \<and> (node_construct c = Some nm \<longrightarrow> node_run hf dv nm cs = Inr nm1 \<longrightarrow>
            ((node_insert hf nm1 k v = Inl Table_full \<and> node_capacity nm1 = 0)
             \<or> (\<exists>nm2 p b. node_insert hf nm1 k v = Inr (nm2, p, b) \<and> 0 < node_capacity nm2
                  \<and> rat_of_nat (n_tombstone_count nm2) / rat_of_nat (node_capacity nm2)
                      \<le> MAX_TOMBSTONE_RATIO))
            \<and> (\<exists>nm2 b. node_erase hf nm1 k = Inr (nm2, b)
                  \<and> (node_size nm2 = 0
                     \<or> (0 < node_capacity nm2
                        \<and> rat_of_nat (n_tombstone_count nm2) / rat_of_nat (node_capacity nm2)
                            \<le> MAX_TOMBSTONE_RATIO))))"
proof (intro conjI impI)
  assume a: "flat_construct c = Some fm" "flat_run hf dv fm cs = Inr fm1"
  note inv = flat_reachable_inv [OF a]
  from flat_insert_ratios [OF inv, of k v]
  show "(flat_insert hf fm1 k v = Inl Table_full \<and> flat_capacity fm1 = 0)
        \<or> (\<exists>fm2 p b. flat_insert hf fm1 k v = Inr (fm2, p, b) \<and> 0 < flat_capacity fm2
             \<and> rat_of_nat (f_tombstone_count fm2) / rat_of_nat (flat_capacity fm2)
                 \<le> MAX_TOMBSTONE_RATIO)"
    unfolding flat_capacity_def by blast
  from flat_erase_ratio [OF inv, of k]
  show "\<exists>fm2 b. flat_erase hf fm1 k = Inr (fm2, b)
          \<and> (flat_size fm2 = 0
             \<or> (0 < flat_capacity fm2
                \<and> rat_of_nat (f_tombstone_count fm2) / rat_of_nat (flat_capacity fm2)
                    \<le> MAX_TOMBSTONE_RATIO))"
    unfolding flat_capacity_def flat_size_def .
next
  assume a: "node_construct c = Some nm" "node_run hf dv nm cs = Inr nm1"
  from node_run_flat_run [OF a] obtain fm0 :: "('k, 'v) flat_map" and fm1
    where inv: "flat_inv hf fm1" and rel: "map_rel fm1 nm1" by blast
  from node_insert_ratios [OF inv rel, of k v]
  show "(node_insert hf nm1 k v = Inl Table_full \<and> node_capacity nm1 = 0)
        \<or> (\<exists>nm2 p b. node_insert hf nm1 k v = Inr (nm2, p, b) \<and> 0 < node_capacity nm2
             \<and> rat_of_nat (n_tombstone_count nm2) / rat_of_nat (node_capacity nm2)
                 \<le> MAX_TOMBSTONE_RATIO)"
    unfolding node_capacity_def by blast
  from node_erase_ratio [OF inv rel, of k]
  show "\<exists>nm2 b. node_erase hf nm1 k = Inr (nm2, b)
          \<and> (node_size nm2 = 0
             \<or> (0 < node_capacity nm2
                \<and> rat_of_nat (n_tombstone_count nm2) / rat_of_nat (node_capacity nm2)
                    \<le> MAX_TOMBSTONE_RATIO))"
    unfolding node_capacity_def node_size_def .
qed

theorem tombstone_ratio_bounded_unless_empty_witness:
  "flat_construct Default_ctor = Some (FlatHashMap :: (nat, nat) flat_map)
   \<and> flat_run id (0::nat) FlatHashMap [Insert (2::nat) 20, Insert 18 30]
      = Inr (projr (flat_run id (0::nat) FlatHashMap [Insert (2::nat) 20, Insert 18 30]))
   \<and> (\<exists>fm2 b. flat_erase id (projr (flat_run id (0::nat) FlatHashMap
                   [Insert (2::nat) 20, Insert 18 30])) 2 = Inr (fm2, b)
         \<and> (flat_size fm2 = 0
            \<or> (0 < flat_capacity fm2
               \<and> rat_of_nat (f_tombstone_count fm2) / rat_of_nat (flat_capacity fm2)
                   \<le> MAX_TOMBSTONE_RATIO)))
   \<and> node_construct Default_ctor = Some (NodeHashMap :: (nat, nat) node_map)
   \<and> node_run id (0::nat) NodeHashMap [Insert (2::nat) 20, Insert 18 30]
      = Inr (projr (node_run id (0::nat) NodeHashMap [Insert (2::nat) 20, Insert 18 30]))
   \<and> (\<exists>nm2 b. node_erase id (projr (node_run id (0::nat) NodeHashMap
                   [Insert (2::nat) 20, Insert 18 30])) 2 = Inr (nm2, b)
         \<and> (node_size nm2 = 0
            \<or> (0 < node_capacity nm2
               \<and> rat_of_nat (n_tombstone_count nm2) / rat_of_nat (node_capacity nm2)
                   \<le> MAX_TOMBSTONE_RATIO)))"
proof -
  let ?cs = "[Insert (2::nat) 20, Insert 18 (30::nat)]"
  let ?fm = "projr (flat_run id (0::nat) FlatHashMap ?cs)"
  let ?nm = "projr (node_run id (0::nat) NodeHashMap ?cs)"
  have f0: "flat_construct Default_ctor = Some (FlatHashMap :: (nat, nat) flat_map)" by simp
  have n0: "node_construct Default_ctor = Some (NodeHashMap :: (nat, nat) node_map)" by simp
  have f1: "flat_run id (0::nat) FlatHashMap ?cs = Inr ?fm" by code_simp
  have n1: "node_run id (0::nat) NodeHashMap ?cs = Inr ?nm" by code_simp
  note t = tombstone_ratio_bounded_unless_empty [where c = Default_ctor and fm = FlatHashMap
      and hf = id and dv = 0 and cs = ?cs and ?fm1.0 = ?fm and nm = NodeHashMap and ?nm1.0 = ?nm
      and k = 2 and v = 0]
  note f2 = t [THEN conjunct1, THEN mp, OF f0, THEN mp, OF f1, THEN conjunct2]
  note n2 = t [THEN conjunct2, THEN mp, OF n0, THEN mp, OF n1, THEN conjunct2]
  show ?thesis
    by (intro conjI) (fact f0 f1 f2 n0 n1 n2)+
qed

text \<open>
  C5. Last write wins, on every state that a constructor and a sequence of calls
  produce, in both backends: when \<open>insert(k, v1)\<close> returns, \<open>insert(k, v2)\<close> right after it
  returns \<open>inserted = false\<close> and a pointer to \<open>v2\<close>, leaves \<open>size()\<close> as it was, and \<open>find(k)\<close>
  then yields \<open>v2\<close>. The first \<open>insert\<close> returns unless the capacity is zero, when it
  throws.
\<close>

theorem second_insert_overwrites:
  fixes fm :: "('k, 'v) flat_map" and nm :: "('k, 'v) node_map"
  shows "(flat_construct c = Some fm \<longrightarrow> flat_run hf dv fm cs = Inr fm1 \<longrightarrow>
            (flat_insert hf fm1 k v1 = Inl Table_full \<and> flat_capacity fm1 = 0)
            \<or> (\<exists>fm2 p1 b1 fm3 p2. flat_insert hf fm1 k v1 = Inr (fm2, p1, b1)
                 \<and> flat_insert hf fm2 k v2 = Inr (fm3, p2, False) \<and> flat_deref fm3 p2 = Some v2
                 \<and> flat_find_value hf fm3 k = Inr (Some v2) \<and> flat_size fm3 = flat_size fm2))
       \<and> (node_construct c = Some nm \<longrightarrow> node_run hf dv nm cs = Inr nm1 \<longrightarrow>
            (node_insert hf nm1 k v1 = Inl Table_full \<and> node_capacity nm1 = 0)
            \<or> (\<exists>nm2 p1 b1 nm3 p2. node_insert hf nm1 k v1 = Inr (nm2, p1, b1)
                 \<and> node_insert hf nm2 k v2 = Inr (nm3, p2, False) \<and> node_deref nm3 p2 = Some v2
                 \<and> node_find_value hf nm3 k = Inr (Some v2) \<and> node_size nm3 = node_size nm2))"
proof (intro conjI impI)
  assume a: "flat_construct c = Some fm" "flat_run hf dv fm cs = Inr fm1"
  note inv = flat_reachable_inv [OF a]
  from flat_insert_insert [OF inv, of k v1 v2]
  show "(flat_insert hf fm1 k v1 = Inl Table_full \<and> flat_capacity fm1 = 0)
        \<or> (\<exists>fm2 p1 b1 fm3 p2. flat_insert hf fm1 k v1 = Inr (fm2, p1, b1)
             \<and> flat_insert hf fm2 k v2 = Inr (fm3, p2, False) \<and> flat_deref fm3 p2 = Some v2
             \<and> flat_find_value hf fm3 k = Inr (Some v2) \<and> flat_size fm3 = flat_size fm2)"
    unfolding flat_capacity_def flat_size_def .
next
  assume a: "node_construct c = Some nm" "node_run hf dv nm cs = Inr nm1"
  from node_run_flat_run [OF a] obtain fm0 :: "('k, 'v) flat_map" and fm1
    where inv: "flat_inv hf fm1" and rel: "map_rel fm1 nm1" by blast
  from node_insert_insert [OF inv rel, of k v1 v2]
  show "(node_insert hf nm1 k v1 = Inl Table_full \<and> node_capacity nm1 = 0)
        \<or> (\<exists>nm2 p1 b1 nm3 p2. node_insert hf nm1 k v1 = Inr (nm2, p1, b1)
             \<and> node_insert hf nm2 k v2 = Inr (nm3, p2, False) \<and> node_deref nm3 p2 = Some v2
             \<and> node_find_value hf nm3 k = Inr (Some v2) \<and> node_size nm3 = node_size nm2)"
    unfolding node_capacity_def node_size_def .
qed

theorem second_insert_overwrites_witness:
  "flat_construct Default_ctor = Some (FlatHashMap :: (nat, nat) flat_map)
   \<and> flat_run id (0::nat) FlatHashMap [Insert (2::nat) 20, Insert 18 30]
      = Inr (projr (flat_run id (0::nat) FlatHashMap [Insert (2::nat) 20, Insert 18 30]))
   \<and> flat_capacity (projr (flat_run id (0::nat) FlatHashMap [Insert (2::nat) 20, Insert 18 30])) = 16
   \<and> (\<exists>fm2 p1 b1 fm3 p2.
         flat_insert id (projr (flat_run id (0::nat) FlatHashMap [Insert (2::nat) 20, Insert 18 30]))
           34 1 = Inr (fm2, p1, b1)
         \<and> flat_insert id fm2 34 2 = Inr (fm3, p2, False) \<and> flat_deref fm3 p2 = Some 2
         \<and> flat_find_value id fm3 34 = Inr (Some 2) \<and> flat_size fm3 = flat_size fm2)
   \<and> node_construct Default_ctor = Some (NodeHashMap :: (nat, nat) node_map)
   \<and> node_run id (0::nat) NodeHashMap [Insert (2::nat) 20, Insert 18 30]
      = Inr (projr (node_run id (0::nat) NodeHashMap [Insert (2::nat) 20, Insert 18 30]))
   \<and> node_capacity (projr (node_run id (0::nat) NodeHashMap [Insert (2::nat) 20, Insert 18 30])) = 16
   \<and> (\<exists>nm2 p1 b1 nm3 p2.
         node_insert id (projr (node_run id (0::nat) NodeHashMap [Insert (2::nat) 20, Insert 18 30]))
           34 1 = Inr (nm2, p1, b1)
         \<and> node_insert id nm2 34 2 = Inr (nm3, p2, False) \<and> node_deref nm3 p2 = Some 2
         \<and> node_find_value id nm3 34 = Inr (Some 2) \<and> node_size nm3 = node_size nm2)"
proof -
  let ?cs = "[Insert (2::nat) 20, Insert 18 (30::nat)]"
  let ?fm = "projr (flat_run id (0::nat) FlatHashMap ?cs)"
  let ?nm = "projr (node_run id (0::nat) NodeHashMap ?cs)"
  have f0: "flat_construct Default_ctor = Some (FlatHashMap :: (nat, nat) flat_map)" by simp
  have n0: "node_construct Default_ctor = Some (NodeHashMap :: (nat, nat) node_map)" by simp
  have f1: "flat_run id (0::nat) FlatHashMap ?cs = Inr ?fm" by code_simp
  have n1: "node_run id (0::nat) NodeHashMap ?cs = Inr ?nm" by code_simp
  have f2: "flat_capacity ?fm = 16" by code_simp
  have n2: "node_capacity ?nm = 16" by code_simp
  note t = second_insert_overwrites [where c = Default_ctor and fm = FlatHashMap
      and hf = id and dv = 0 and cs = ?cs and ?fm1.0 = ?fm and nm = NodeHashMap and ?nm1.0 = ?nm
      and k = 34 and ?v1.0 = 1 and ?v2.0 = 2]
  from t [THEN conjunct1, THEN mp, OF f0, THEN mp, OF f1] f2
  have f3: "\<exists>fm2 p1 b1 fm3 p2. flat_insert id ?fm 34 1 = Inr (fm2, p1, b1)
         \<and> flat_insert id fm2 34 2 = Inr (fm3, p2, False) \<and> flat_deref fm3 p2 = Some 2
         \<and> flat_find_value id fm3 34 = Inr (Some 2) \<and> flat_size fm3 = flat_size fm2"
    by (elim disjE conjE) simp_all
  from t [THEN conjunct2, THEN mp, OF n0, THEN mp, OF n1] n2
  have n3: "\<exists>nm2 p1 b1 nm3 p2. node_insert id ?nm 34 1 = Inr (nm2, p1, b1)
         \<and> node_insert id nm2 34 2 = Inr (nm3, p2, False) \<and> node_deref nm3 p2 = Some 2
         \<and> node_find_value id nm3 34 = Inr (Some 2) \<and> node_size nm3 = node_size nm2"
    by (elim disjE conjE) simp_all
  show ?thesis
    by (intro conjI) (fact f0 f1 f2 f3 n0 n1 n2 n3)+
qed

text \<open>
  C7. On every state that a constructor and a sequence of calls produce, in both
  backends, an \<open>insert\<close> that returns leaves \<open>size() / capacity() \<le> 0.75\<close>, with a capacity
  that is not zero. \<open>insert\<close> returns unless the capacity is zero, when it throws and
  there is no state after it.
\<close>

theorem load_factor_bounded_after_insert:
  fixes fm :: "('k, 'v) flat_map" and nm :: "('k, 'v) node_map"
  shows "(flat_construct c = Some fm \<longrightarrow> flat_run hf dv fm cs = Inr fm1 \<longrightarrow>
            (flat_insert hf fm1 k v = Inl Table_full \<and> flat_capacity fm1 = 0)
            \<or> (\<exists>fm2 p b. flat_insert hf fm1 k v = Inr (fm2, p, b) \<and> 0 < flat_capacity fm2
                 \<and> rat_of_nat (flat_size fm2) / rat_of_nat (flat_capacity fm2) \<le> MAX_LOAD_FACTOR))
       \<and> (node_construct c = Some nm \<longrightarrow> node_run hf dv nm cs = Inr nm1 \<longrightarrow>
            (node_insert hf nm1 k v = Inl Table_full \<and> node_capacity nm1 = 0)
            \<or> (\<exists>nm2 p b. node_insert hf nm1 k v = Inr (nm2, p, b) \<and> 0 < node_capacity nm2
                 \<and> rat_of_nat (node_size nm2) / rat_of_nat (node_capacity nm2) \<le> MAX_LOAD_FACTOR))"
proof (intro conjI impI)
  assume a: "flat_construct c = Some fm" "flat_run hf dv fm cs = Inr fm1"
  note inv = flat_reachable_inv [OF a]
  from flat_insert_ratios [OF inv, of k v]
  show "(flat_insert hf fm1 k v = Inl Table_full \<and> flat_capacity fm1 = 0)
        \<or> (\<exists>fm2 p b. flat_insert hf fm1 k v = Inr (fm2, p, b) \<and> 0 < flat_capacity fm2
             \<and> rat_of_nat (flat_size fm2) / rat_of_nat (flat_capacity fm2) \<le> MAX_LOAD_FACTOR)"
    unfolding flat_capacity_def flat_size_def by blast
next
  assume a: "node_construct c = Some nm" "node_run hf dv nm cs = Inr nm1"
  from node_run_flat_run [OF a] obtain fm0 :: "('k, 'v) flat_map" and fm1
    where inv: "flat_inv hf fm1" and rel: "map_rel fm1 nm1" by blast
  from node_insert_ratios [OF inv rel, of k v]
  show "(node_insert hf nm1 k v = Inl Table_full \<and> node_capacity nm1 = 0)
        \<or> (\<exists>nm2 p b. node_insert hf nm1 k v = Inr (nm2, p, b) \<and> 0 < node_capacity nm2
             \<and> rat_of_nat (node_size nm2) / rat_of_nat (node_capacity nm2) \<le> MAX_LOAD_FACTOR)"
    unfolding node_capacity_def node_size_def by blast
qed

theorem load_factor_bounded_after_insert_witness:
  "flat_construct Default_ctor = Some (FlatHashMap :: (nat, nat) flat_map)
   \<and> flat_run id (0::nat) FlatHashMap [Insert (2::nat) 20, Insert 18 30]
      = Inr (projr (flat_run id (0::nat) FlatHashMap [Insert (2::nat) 20, Insert 18 30]))
   \<and> flat_capacity (projr (flat_run id (0::nat) FlatHashMap [Insert (2::nat) 20, Insert 18 30])) = 16
   \<and> (\<exists>fm2 p b.
         flat_insert id (projr (flat_run id (0::nat) FlatHashMap [Insert (2::nat) 20, Insert 18 30]))
           34 1 = Inr (fm2, p, b) \<and> 0 < flat_capacity fm2
         \<and> rat_of_nat (flat_size fm2) / rat_of_nat (flat_capacity fm2) \<le> MAX_LOAD_FACTOR)
   \<and> node_construct Default_ctor = Some (NodeHashMap :: (nat, nat) node_map)
   \<and> node_run id (0::nat) NodeHashMap [Insert (2::nat) 20, Insert 18 30]
      = Inr (projr (node_run id (0::nat) NodeHashMap [Insert (2::nat) 20, Insert 18 30]))
   \<and> node_capacity (projr (node_run id (0::nat) NodeHashMap [Insert (2::nat) 20, Insert 18 30])) = 16
   \<and> (\<exists>nm2 p b.
         node_insert id (projr (node_run id (0::nat) NodeHashMap [Insert (2::nat) 20, Insert 18 30]))
           34 1 = Inr (nm2, p, b) \<and> 0 < node_capacity nm2
         \<and> rat_of_nat (node_size nm2) / rat_of_nat (node_capacity nm2) \<le> MAX_LOAD_FACTOR)"
proof -
  let ?cs = "[Insert (2::nat) 20, Insert 18 (30::nat)]"
  let ?fm = "projr (flat_run id (0::nat) FlatHashMap ?cs)"
  let ?nm = "projr (node_run id (0::nat) NodeHashMap ?cs)"
  have f0: "flat_construct Default_ctor = Some (FlatHashMap :: (nat, nat) flat_map)" by simp
  have n0: "node_construct Default_ctor = Some (NodeHashMap :: (nat, nat) node_map)" by simp
  have f1: "flat_run id (0::nat) FlatHashMap ?cs = Inr ?fm" by code_simp
  have n1: "node_run id (0::nat) NodeHashMap ?cs = Inr ?nm" by code_simp
  have f2: "flat_capacity ?fm = 16" by code_simp
  have n2: "node_capacity ?nm = 16" by code_simp
  note t = load_factor_bounded_after_insert [where c = Default_ctor and fm = FlatHashMap
      and hf = id and dv = 0 and cs = ?cs and ?fm1.0 = ?fm and nm = NodeHashMap and ?nm1.0 = ?nm
      and k = 34 and v = 1]
  from t [THEN conjunct1, THEN mp, OF f0, THEN mp, OF f1] f2
  have f3: "\<exists>fm2 p b. flat_insert id ?fm 34 1 = Inr (fm2, p, b) \<and> 0 < flat_capacity fm2
         \<and> rat_of_nat (flat_size fm2) / rat_of_nat (flat_capacity fm2) \<le> MAX_LOAD_FACTOR"
    by (elim disjE conjE) simp_all
  from t [THEN conjunct2, THEN mp, OF n0, THEN mp, OF n1] n2
  have n3: "\<exists>nm2 p b. node_insert id ?nm 34 1 = Inr (nm2, p, b) \<and> 0 < node_capacity nm2
         \<and> rat_of_nat (node_size nm2) / rat_of_nat (node_capacity nm2) \<le> MAX_LOAD_FACTOR"
    by (elim disjE conjE) simp_all
  show ?thesis
    by (intro conjI) (fact f0 f1 f2 f3 n0 n1 n2 n3)+
qed

end
